theory Spec2Isabelle
  imports Complex_Main "HOL-Library.Word"
begin

section \<open>Numbers of the script\<close>

text \<open>
  The script computes entropy with JavaScript numbers. For the entropy functions they are
  modelled as exact reals together with the three special values that the script can
  produce or test for (\<open>Infinity\<close>, \<open>-Infinity\<close>, \<open>NaN\<close>); rounding of doubles and
  overflow of finite values are not modelled there, and signed zeros are identified. The
  crack-time formatter is modelled over an arithmetic that is a parameter (see there), of
  which these exact numbers are one instance.
\<close>

datatype jsnum = Num real | PosInfinity | NegInfinity | NaN

fun js_neg :: "jsnum \<Rightarrow> jsnum" where
  "js_neg (Num x) = Num (- x)"
| "js_neg PosInfinity = NegInfinity"
| "js_neg NegInfinity = PosInfinity"
| "js_neg NaN = NaN"

fun js_add :: "jsnum \<Rightarrow> jsnum \<Rightarrow> jsnum" where
  "js_add NaN _ = NaN"
| "js_add _ NaN = NaN"
| "js_add (Num x) (Num y) = Num (x + y)"
| "js_add PosInfinity NegInfinity = NaN"
| "js_add NegInfinity PosInfinity = NaN"
| "js_add PosInfinity _ = PosInfinity"
| "js_add NegInfinity _ = NegInfinity"
| "js_add (Num x) y = y"

definition js_sub :: "jsnum \<Rightarrow> jsnum \<Rightarrow> jsnum" where
  "js_sub a b = js_add a (js_neg b)"

fun js_sign :: "jsnum \<Rightarrow> real" where
  "js_sign (Num x) = sgn x"
| "js_sign PosInfinity = 1"
| "js_sign NegInfinity = - 1"
| "js_sign NaN = 0"

fun js_mul :: "jsnum \<Rightarrow> jsnum \<Rightarrow> jsnum" where
  "js_mul NaN _ = NaN"
| "js_mul _ NaN = NaN"
| "js_mul (Num x) (Num y) = Num (x * y)"
| "js_mul a b =
     (if js_sign a * js_sign b = 0 then NaN
      else if 0 < js_sign a * js_sign b then PosInfinity else NegInfinity)"

fun js_div :: "jsnum \<Rightarrow> jsnum \<Rightarrow> jsnum" where
  "js_div NaN _ = NaN"
| "js_div _ NaN = NaN"
| "js_div (Num x) (Num y) =
     (if y \<noteq> 0 then Num (x / y)
      else if x = 0 then NaN else if 0 < x then PosInfinity else NegInfinity)"
| "js_div (Num x) _ = Num 0"
| "js_div a (Num y) =
     (if 0 \<le> js_sign a * (if y = 0 then 1 else sgn y) then PosInfinity else NegInfinity)"
| "js_div _ _ = NaN"

text \<open>The comparisons \<open><\<close> and \<open><=\<close>: false as soon as one side is \<open>NaN\<close>.\<close>

fun js_less :: "jsnum \<Rightarrow> jsnum \<Rightarrow> bool" where
  "js_less NaN _ = False"
| "js_less _ NaN = False"
| "js_less (Num x) (Num y) = (x < y)"
| "js_less _ NegInfinity = False"
| "js_less PosInfinity _ = False"
| "js_less _ _ = True"

fun js_less_eq :: "jsnum \<Rightarrow> jsnum \<Rightarrow> bool" where
  "js_less_eq NaN _ = False"
| "js_less_eq _ NaN = False"
| "js_less_eq a b = (\<not> js_less b a)"

text \<open>\<open>Math.log2\<close>, \<open>Math.log10\<close>, \<open>Math.pow(10, x)\<close> and \<open>Math.floor\<close>.\<close>

fun Math_log :: "real \<Rightarrow> jsnum \<Rightarrow> jsnum" where
  "Math_log b (Num x) = (if x < 0 then NaN else if x = 0 then NegInfinity else Num (log b x))"
| "Math_log b PosInfinity = PosInfinity"
| "Math_log b _ = NaN"

definition Math_log2 :: "jsnum \<Rightarrow> jsnum" where
  "Math_log2 = Math_log 2"

definition Math_log10 :: "jsnum \<Rightarrow> jsnum" where
  "Math_log10 = Math_log 10"

fun Math_pow10 :: "jsnum \<Rightarrow> jsnum" where
  "Math_pow10 (Num x) = Num (10 powr x)"
| "Math_pow10 PosInfinity = PosInfinity"
| "Math_pow10 NegInfinity = Num 0"
| "Math_pow10 NaN = NaN"

fun Math_floor :: "jsnum \<Rightarrow> jsnum" where
  "Math_floor (Num x) = Num (of_int \<lfloor>x\<rfloor>)"
| "Math_floor a = a"

definition of_count :: "nat \<Rightarrow> jsnum" where
  "of_count n = Num (real n)"

definition of_integer :: "int \<Rightarrow> jsnum" where
  "of_integer n = Num (real_of_int n)"

section \<open>Utilities: secure RNG\<close>

text \<open>
  \<open>crypto.getRandomValues\<close> is the only source of randomness. A run of the script is
  modelled against the sequence of 32-bit values the source delivers, \<open>raws\<close>; every call
  of \<open>secureRandomUint32\<close> takes the next one. \<open>choices\<close> is instrumentation that the
  script does not have: the argument of every call of \<open>secureRandomInt\<close> that returned,
  in call order, that is, the number of alternatives of every random choice made.
\<close>

type_synonym u32 = "32 word"

datatype error = InvalidArgument

record rng =
  raws :: "u32 list"
  choices :: "nat list"

text \<open>
  A computation returns a value and the remaining source, throws, or is still redrawing
  when the delivered values are used up (\<open>Spinning\<close>: the rejection loop has not returned).
\<close>

datatype 'a outcome = Return 'a rng | Throw error | Spinning

definition maxUint :: int where
  "maxUint = 4294967295"

definition threshold :: "int \<Rightarrow> int" where
  "threshold maxExclusive = maxUint - (maxUint mod maxExclusive)"

text \<open>The loop \<open>while (true)\<close> of \<open>secureRandomInt\<close>, one raw value per iteration.\<close>

fun redraw :: "int \<Rightarrow> u32 list \<Rightarrow> (nat \<times> u32 list) option" where
  "redraw maxExclusive [] = None"
| "redraw maxExclusive (r # rs) =
     (if uint r < threshold maxExclusive then Some (nat (uint r mod maxExclusive), rs)
      else redraw maxExclusive rs)"

definition secureRandomInt :: "int \<Rightarrow> rng \<Rightarrow> nat outcome" where
  "secureRandomInt maxExclusive g =
     (if maxExclusive \<le> 0 then Throw InvalidArgument
      else case redraw maxExclusive (raws g) of
             None \<Rightarrow> Spinning
           | Some (v, rest) \<Rightarrow>
               Return v \<lparr>raws = rest, choices = choices g @ [nat maxExclusive]\<rparr>)"

definition secureChoice :: "'a list \<Rightarrow> rng \<Rightarrow> 'a outcome" where
  "secureChoice arr g =
     (case secureRandomInt (int (length arr)) g of
        Return i g' \<Rightarrow> Return (arr ! i) g'
      | Throw e \<Rightarrow> Throw e
      | Spinning \<Rightarrow> Spinning)"

section \<open>Wordlist loader\<close>

text \<open>
  \<open>loadWordlist\<close> fetches \<open>assets/wordlist.json\<close>. What the fetch can do is a value:
  the request is rejected; or there is a response with its \<open>ok\<close> flag and the result
  of \<open>resp.json()\<close>, which is absent when the body does not parse. The entries of
  a fetched array are taken to be strings, as the resource is documented; the script
  checks only \<open>Array.isArray(arr) && arr.length >= 10\<close>.
\<close>

datatype parsed = JsonArray "string list" | JsonOther

datatype fetched = FetchRejected | Response bool "parsed option"

text \<open>The array literal of the \<open>catch\<close> block, entry by entry.\<close>

definition embedded_fallback :: "string list" where
  "embedded_fallback =
     [''apple'', ''anchor'', ''amber'', ''atlas'', ''axiom'', ''beacon'', ''breeze'', ''brisk'',
      ''cobalt'', ''copper'', ''crimson'', ''crest'', ''dawn'', ''delta'', ''ember'', ''echo'',
      ''forge'', ''fable'', ''garnet'', ''glade'', ''hollow'', ''harbor'', ''iris'', ''ivory'',
      ''jolt'', ''jade'', ''keystone'', ''kismet'', ''lumen'', ''lunar'', ''mosaic'', ''matrix'',
      ''nebula'', ''native'', ''opal'', ''oracle'', ''pinnacle'', ''pioneer'', ''quartz'', ''quiet'',
      ''rift'', ''ranger'', ''sable'', ''solar'', ''spruce'', ''titan'', ''tracer'', ''umbra'',
      ''union'', ''vapor'', ''valiant'', ''woven'', ''whistle'', ''xenon'', ''yearn'', ''yonder'',
      ''zephyr'', ''zenith'', ''azure'', ''crest'', ''marble'', ''canyon'', ''willow'', ''orchid'',
      ''violet'', ''sage'', ''cinder'', ''flint'', ''cobalt'', ''saffron'', ''harvest'', ''meadow'',
      ''glimmer'', ''fusion'', ''harbor'', ''legend'', ''mongoose'', ''poppy'', ''copper'', ''thrive'',
      ''riddle'', ''cobalt'', ''raven'', ''dune'', ''copper'', ''stride'', ''haven'', ''ember'',
      ''basil'', ''cascade'', ''dapper'', ''evolve'', ''frank'', ''grove'', ''haven'', ''ignite'',
      ''juno'', ''latch'', ''mirth'', ''nimbus'', ''opal'', ''prism'', ''quest'', ''ripple'',
      ''sable'', ''terra'', ''uplift'', ''verve'', ''wisp'', ''yarrow'', ''zeal'', ''arcade'',
      ''bravo'', ''caper'', ''drift'', ''elixir'', ''flute'', ''gale'', ''halt'', ''ion'',
      ''jewel'', ''knack'', ''lodge'', ''muse'', ''noir'', ''opal'', ''paragon'', ''quietus'',
      ''resin'', ''sprout'', ''tango'', ''undertow'', ''vivid'', ''wax'', ''yacht'', ''zest'',
      ''bloom'', ''citrine'', ''dock'', ''ember'', ''flare'', ''grotto'', ''harbor'', ''isle'',
      ''jolt'', ''kale'', ''lagoon'', ''mantle'', ''niche'', ''oath'', ''pixel'', ''quill'',
      ''rover'', ''solace'', ''thimble'', ''umbel'', ''vigil'', ''waltz'', ''xerox'', ''yodel'',
      ''zeppelin'', ''apex'', ''brook'', ''crest'', ''delta'', ''eon'', ''forge'', ''glisten'',
      ''hush'', ''iris'', ''jade'', ''koi'', ''lore'', ''maze'', ''nest'', ''olive'',
      ''peak'', ''quip'', ''rush'', ''sprig'', ''thaw'', ''ultra'', ''vortex'', ''wane'',
      ''yearn'', ''zen'']"

text \<open>The value of \<open>WORDLIST\<close> once \<open>loadWordlist\<close> has settled.\<close>

definition loadWordlist :: "fetched \<Rightarrow> string list" where
  "loadWordlist resp =
     (case resp of
        Response True (Some (JsonArray arr)) \<Rightarrow>
          if 10 \<le> length arr then arr else embedded_fallback
      | _ \<Rightarrow> embedded_fallback)"

section \<open>Leet map and symbol set\<close>

definition LEET_MAP :: "char \<rightharpoonup> string" where
  "LEET_MAP = map_of
     [(CHR ''a'', ''4@''), (CHR ''b'', ''8''), (CHR ''e'', ''3''), (CHR ''g'', ''9''),
      (CHR ''i'', ''1!''), (CHR ''l'', ''1|''), (CHR ''o'', ''0''), (CHR ''s'', ''5$''),
      (CHR ''t'', ''7''), (CHR ''z'', ''2'')]"

definition SYMBOLS :: string where
  "SYMBOLS = ''!@#$%^&*()-_=+[]{};:,./?<>~''"

section \<open>Characters and strings\<close>

text \<open>
  A string is a list of characters with codes 0 to 255, one per UTF-16 code unit of the
  script's string (ASCII and the Latin-1 block). The wordlist, the symbol set and the leet
  table are ASCII. The script applies \<open>toUpperCase\<close> to a character only after the test
  \<open>/[a-zA-Z]/\<close>, so it is given on ASCII letters; \<open>toLowerCase\<close> is also applied to
  arbitrary characters (the leet lookup, the personal hint) and covers Latin-1.
\<close>

definition isLetter :: "char \<Rightarrow> bool" where
  "isLetter ch = (let c = (of_char ch :: nat) in (97 \<le> c \<and> c \<le> 122) \<or> (65 \<le> c \<and> c \<le> 90))"

definition toUpperCase :: "char \<Rightarrow> char" where
  "toUpperCase ch =
     (let c = (of_char ch :: nat) in if 97 \<le> c \<and> c \<le> 122 then char_of (c - 32) else ch)"

definition toLowerCase :: "char \<Rightarrow> char" where
  "toLowerCase ch =
     (let c = (of_char ch :: nat) in
      if (65 \<le> c \<and> c \<le> 90) \<or> (192 \<le> c \<and> c \<le> 222 \<and> c \<noteq> 215) then char_of (c + 32)
      else ch)"

definition isSpace :: "char \<Rightarrow> bool" where
  "isSpace ch = ((of_char ch :: nat) \<in> {9, 10, 11, 12, 13, 32, 160})"

text \<open>\<open>arr.join(sep)\<close> on an array of strings.\<close>

fun join :: "string list \<Rightarrow> string \<Rightarrow> string" where
  "join [] sep = []"
| "join [w] sep = w"
| "join (w # ws) sep = w @ sep @ join ws sep"

section \<open>Math helpers for combinatorics in log2 space\<close>

definition log2_nCr :: "int \<Rightarrow> int \<Rightarrow> jsnum" where
  "log2_nCr n k =
     (if k < 0 \<or> k > n then NegInfinity
      else let k' = min k (n - k) in
        fold (\<lambda>i sum. js_add sum (Math_log2 (js_div (of_integer (n - k' + i)) (of_integer i))))
          [1..k'] (Num 0))"

section \<open>Entropy and time-to-crack calculations\<close>

record classes =
  digits :: bool
  symbols :: bool

record poolCfg = classes +
  lower :: bool
  upper :: bool

definition charPoolSize :: "poolCfg \<Rightarrow> nat" where
  "charPoolSize opts =
     (if lower opts then 26 else 0) + (if upper opts then 26 else 0)
     + (if digits opts then 10 else 0) + (if symbols opts then length SYMBOLS else 0)"

definition bitsForCharacterMode :: "int \<Rightarrow> int \<Rightarrow> jsnum" where
  "bitsForCharacterMode len poolSize =
     (if poolSize \<le> 0 then Num 0
      else js_mul (of_integer len) (Math_log2 (of_integer poolSize)))"

record insertion =
  count :: nat
  choiceSize :: nat

record transforms =
  capitalisation :: bool
  lettersCount :: nat
  leet :: bool
  leetChoices :: "nat list"
  insertions :: "insertion option"
  baseLen :: nat

text \<open>
  \<open>bitsForPassphraseModel\<close>: the three guarded updates \<open>bits += ...\<close> in their order. A
  guard such as \<open>transforms.capitalisation && transforms.lettersCount\<close> is true when the
  count is not zero, \<open>transforms.insertions && transforms.insertions.count\<close> when the
  sub-record is present and its count is not zero.
\<close>

definition bitsForPassphraseModel :: "nat \<Rightarrow> nat \<Rightarrow> transforms \<Rightarrow> jsnum" where
  "bitsForPassphraseModel numWords wordlistSize t =
     (let bits = js_mul (of_count numWords) (Math_log2 (of_count wordlistSize));
          bits = (if capitalisation t \<and> lettersCount t \<noteq> 0
                  then js_add bits (js_mul (of_count (lettersCount t)) (Num 1)) else bits);
          bits = (if leet t \<and> leetChoices t \<noteq> []
                  then fold (\<lambda>c b. js_add b (Math_log2 (of_count c))) (leetChoices t) bits
                  else bits)
      in case insertions t of
           None \<Rightarrow> bits
         | Some ins \<Rightarrow>
             if count ins = 0 then bits
             else let k = count ins;
                      bits = js_add bits (js_mul (of_count k) (Math_log2 (of_count (choiceSize ins))));
                      positionsLog2 = log2_nCr (int (baseLen t + k)) (int k)
                  in js_add bits positionsLog2)"

text \<open>
  The crack-time formatter is about the doubles themselves: which branch it takes, and
  whether a value it computes is still finite, depends on how the results of
  \<open>Math.log10\<close>, \<open>Math.pow\<close> and of the arithmetic are rounded. Its model is therefore
  parametric in the arithmetic of the runtime: a record of the operations that the
  function uses on numbers of a type \<open>'d\<close>, namely the integer literals, \<open><\<close>, \<open><=\<close>,
  \<open>*\<close>, \<open>-\<close>, \<open>/\<close>, \<open>Math.log10\<close>, \<open>Math.pow(10, .)\<close> and \<open>Math.floor\<close>. The function is
  the code over these operations; what is assumed of them is said where it is used.
\<close>

record 'd arith =
  lit :: "int \<Rightarrow> 'd"
  lt :: "'d \<Rightarrow> 'd \<Rightarrow> bool"
  le :: "'d \<Rightarrow> 'd \<Rightarrow> bool"
  mul :: "'d \<Rightarrow> 'd \<Rightarrow> 'd"
  sub :: "'d \<Rightarrow> 'd \<Rightarrow> 'd"
  quot :: "'d \<Rightarrow> 'd \<Rightarrow> 'd"
  log10 :: "'d \<Rightarrow> 'd"
  pow10 :: "'d \<Rightarrow> 'd"
  flr :: "'d \<Rightarrow> 'd"

text \<open>
  A label \<open>`${x.toFixed(2)} unit`\<close> is kept as its unit and the number that is handed to
  \<open>toFixed\<close>; \<open>Scientific m e\<close> is the label \<open>`\<approx> ${m.toFixed(2)}e${e} years`\<close>.
  \<open>seconds: null\<close> is \<open>None\<close>.
\<close>

datatype 'd label =
  LessThanSecond | Minutes 'd | Hours 'd | Days 'd | Years 'd
  | Scientific 'd 'd

record 'd crack_time =
  label :: "'d label"
  seconds :: "'d option"

definition formatCrackTimeFromBits :: "'d arith \<Rightarrow> 'd \<Rightarrow> 'd \<Rightarrow> 'd crack_time" where
  "formatCrackTimeFromBits A bits guessesPerSec =
     (if le A bits (lit A 0) then \<lparr>label = LessThanSecond, seconds = Some (lit A 0)\<rparr>
      else let log10Guesses = mul A bits (log10 A (lit A 2));
               log10Seconds = sub A log10Guesses (log10 A guessesPerSec)
        in if lt A log10Seconds (lit A 0)
           then \<lparr>label = LessThanSecond, seconds = Some (pow10 A log10Seconds)\<rparr>
           else let SECS_PER_YEAR = lit A 31557600;
                    log10Years = sub A log10Seconds (log10 A SECS_PER_YEAR)
             in if lt A log10Years (lit A 6)
                then let years = pow10 A log10Years
                  in if lt A years (lit A 60)
                     then let days = quot A (pow10 A log10Seconds) (lit A 86400)
                       in if lt A days (lit A 1)
                          then let hours = quot A (pow10 A log10Seconds) (lit A 3600)
                            in if lt A hours (lit A 1)
                               then let minutes = quot A (pow10 A log10Seconds) (lit A 60)
                                 in \<lparr>label = Minutes minutes,
                                     seconds = Some (pow10 A log10Seconds)\<rparr>
                               else \<lparr>label = Hours hours, seconds = Some (pow10 A log10Seconds)\<rparr>
                          else \<lparr>label = Days days, seconds = Some (pow10 A log10Seconds)\<rparr>
                     else \<lparr>label = Years years, seconds = Some (pow10 A log10Seconds)\<rparr>
                else let exponentYears = flr A log10Years;
                         mantissa = pow10 A (sub A log10Years exponentYears)
                  in \<lparr>label = Scientific mantissa exponentYears, seconds = None\<rparr>)"

text \<open>The value of the constant \<open>log10Years\<close> of \<open>formatCrackTimeFromBits\<close>, as it is computed.\<close>

definition log10Years :: "'d arith \<Rightarrow> 'd \<Rightarrow> 'd \<Rightarrow> 'd" where
  "log10Years A bits guessesPerSec =
     sub A (sub A (mul A bits (log10 A (lit A 2))) (log10 A guessesPerSec))
       (log10 A (lit A 31557600))"

section \<open>Password generators\<close>

text \<open>
  The object that \<open>generateCharacterPassword\<close> returns. A property that the returned
  object does not have is \<open>None\<close>: the early return for an empty pool is
  \<open>{ password: '', transforms: {} }\<close>, with no \<open>bits\<close> and nothing in \<open>transforms\<close>.
\<close>

record char_transforms =
  poolSize :: nat
  pwd_length :: int

record char_result =
  c_password :: string
  c_bits :: "jsnum option"
  c_transforms :: "char_transforms option"

definition buildPool :: "poolCfg \<Rightarrow> string" where
  "buildPool cfg =
     (if lower cfg then map (\<lambda>i. char_of (97 + i)) [0..<26] else [])
     @ (if upper cfg then map (\<lambda>i. char_of (65 + i)) [0..<26] else [])
     @ (if digits cfg then map (\<lambda>i. char_of (48 + i)) [0..<10] else [])
     @ (if symbols cfg then SYMBOLS else [])"

text \<open>The loop \<open>for (i = 0; i < length; i++) pwd += secureChoice(pool)\<close>, by iterations left.\<close>

fun drawChars :: "nat \<Rightarrow> string \<Rightarrow> string \<Rightarrow> rng \<Rightarrow> string outcome" where
  "drawChars 0 pool pwd g = Return pwd g"
| "drawChars (Suc n) pool pwd g =
     (case secureChoice pool g of
        Return ch g' \<Rightarrow> drawChars n pool (pwd @ [ch]) g'
      | Throw e \<Rightarrow> Throw e
      | Spinning \<Rightarrow> Spinning)"

definition generateCharacterPassword :: "int \<Rightarrow> poolCfg \<Rightarrow> rng \<Rightarrow> char_result outcome" where
  "generateCharacterPassword len cfg g =
     (let pool = buildPool cfg in
      if length pool = 0
      then Return \<lparr>c_password = [], c_bits = None, c_transforms = None\<rparr> g
      else case drawChars (nat len) pool [] g of
             Return pwd g' \<Rightarrow>
               Return \<lparr>c_password = pwd,
                       c_bits = Some (bitsForCharacterMode len (int (length pool))),
                       c_transforms = Some \<lparr>poolSize = length pool, pwd_length = len\<rparr>\<rparr> g'
           | Throw e \<Rightarrow> Throw e
           | Spinning \<Rightarrow> Spinning)"

record cap_result =
  cap_text :: string
  cap_lettersCount :: nat

fun capLoop :: "string \<Rightarrow> string \<Rightarrow> nat \<Rightarrow> rng \<Rightarrow> cap_result outcome" where
  "capLoop [] out n g = Return \<lparr>cap_text = out, cap_lettersCount = n\<rparr> g"
| "capLoop (ch # rest) out n g =
     (if isLetter ch
      then case secureRandomInt 2 g of
             Return r g' \<Rightarrow>
               capLoop rest (out @ [if r = 1 then toUpperCase ch else toLowerCase ch]) (n + 1) g'
           | Throw e \<Rightarrow> Throw e
           | Spinning \<Rightarrow> Spinning
      else capLoop rest (out @ [ch]) n g)"

definition randomizeCapitalization :: "string \<Rightarrow> rng \<Rightarrow> cap_result outcome" where
  "randomizeCapitalization txt g = capLoop txt [] 0 g"

record leet_result =
  leet_text :: string
  leet_choices :: "nat list"

fun leetLoop :: "string \<Rightarrow> string \<Rightarrow> nat list \<Rightarrow> rng \<Rightarrow> leet_result outcome" where
  "leetLoop [] out cs g = Return \<lparr>leet_text = out, leet_choices = cs\<rparr> g"
| "leetLoop (ch # rest) out cs g =
     (case LEET_MAP (toLowerCase ch) of
        Some alts \<Rightarrow>
          (let opts = ch # alts in
           case secureChoice opts g of
             Return pick g' \<Rightarrow> leetLoop rest (out @ [pick]) (cs @ [length opts]) g'
           | Throw e \<Rightarrow> Throw e
           | Spinning \<Rightarrow> Spinning)
      | None \<Rightarrow> leetLoop rest (out @ [ch]) cs g)"

definition applyLeet :: "string \<Rightarrow> rng \<Rightarrow> leet_result outcome" where
  "applyLeet txt g = leetLoop txt [] [] g"

record extras_result =
  ex_text :: string
  ex_count :: nat
  ex_choiceSize :: nat
  ex_baseLen :: nat

definition maxInsertOf :: "nat \<Rightarrow> nat" where
  "maxInsertOf n = min 4 (max 1 (nat \<lceil>real n / 6\<rceil>))"

text \<open>The first loop of \<open>insertExtras\<close>: one value per iteration, the type first.\<close>

fun pickInserts :: "nat \<Rightarrow> classes \<Rightarrow> string \<Rightarrow> rng \<Rightarrow> string outcome" where
  "pickInserts 0 opts inserts g = Return inserts g"
| "pickInserts (Suc n) opts inserts g =
     (case (if symbols opts \<and> digits opts then secureRandomInt 2 g
            else Return (if symbols opts then 1 else 0) g) of
        Return pickType g1 \<Rightarrow>
          if pickType = 1
          then (case secureChoice SYMBOLS g1 of
                  Return s g2 \<Rightarrow> pickInserts n opts (inserts @ [s]) g2
                | Throw e \<Rightarrow> Throw e
                | Spinning \<Rightarrow> Spinning)
          else (case secureRandomInt 10 g1 of
                  Return d g2 \<Rightarrow> pickInserts n opts (inserts @ [char_of (48 + d)]) g2
                | Throw e \<Rightarrow> Throw e
                | Spinning \<Rightarrow> Spinning)
      | Throw e \<Rightarrow> Throw e
      | Spinning \<Rightarrow> Spinning)"

text \<open>The second loop: \<open>arr.splice(pos, 0, inserts[i])\<close> at a position drawn in \<open>0..arr.length\<close>.\<close>

fun placeInserts :: "string \<Rightarrow> string \<Rightarrow> rng \<Rightarrow> string outcome" where
  "placeInserts [] arr g = Return arr g"
| "placeInserts (x # xs) arr g =
     (case secureRandomInt (int (length arr + 1)) g of
        Return pos g' \<Rightarrow> placeInserts xs (take pos arr @ [x] @ drop pos arr) g'
      | Throw e \<Rightarrow> Throw e
      | Spinning \<Rightarrow> Spinning)"

definition insertExtras :: "string \<Rightarrow> classes \<Rightarrow> rng \<Rightarrow> extras_result outcome" where
  "insertExtras txt opts g =
     (let baseLen = length txt;
          maxInsert = maxInsertOf baseLen
      in case secureRandomInt (int maxInsert) g of
           Return r g1 \<Rightarrow>
             (let cnt = 1 + r in
              case pickInserts cnt opts [] g1 of
                Return inserts g2 \<Rightarrow>
                  (case placeInserts inserts txt g2 of
                     Return final g3 \<Rightarrow>
                       Return \<lparr>ex_text = final, ex_count = length inserts,
                               ex_choiceSize =
                                 (if symbols opts \<and> digits opts then length SYMBOLS + 10
                                  else if symbols opts then length SYMBOLS else 10),
                               ex_baseLen = baseLen\<rparr> g3
                   | Throw e \<Rightarrow> Throw e
                   | Spinning \<Rightarrow> Spinning)
              | Throw e \<Rightarrow> Throw e
              | Spinning \<Rightarrow> Spinning)
         | Throw e \<Rightarrow> Throw e
         | Spinning \<Rightarrow> Spinning)"

record options =
  numWords :: nat
  separator :: string
  personal :: string
  enableCap :: bool
  enableLeet :: bool
  enableInsertExtras :: bool

record result =
  password :: string
  bits :: jsnum
  transforms :: transforms
  words :: "string list"

text \<open>\<open>opts.personal.replace(/\s+/g, '').slice(0, 12)\<close>, lower-cased.\<close>

definition hintWord :: "string \<Rightarrow> string" where
  "hintWord p = map toLowerCase (take 12 (filter (\<lambda>ch. \<not> isSpace ch) p))"

text \<open>
  The word loop of \<open>generatePassphrase\<close>, by iterations left. \<open>secureRandomInt(5)\<close> is
  called only when the hint has more than one character (\<open>&&\<close> short-circuits).
\<close>

fun chooseWords :: "nat \<Rightarrow> string list \<Rightarrow> string \<Rightarrow> string list \<Rightarrow> rng \<Rightarrow> string list outcome" where
  "chooseWords 0 wl hint wordChoices g = Return wordChoices g"
| "chooseWords (Suc n) wl hint wordChoices g =
     (case (if 1 < length hint then secureRandomInt 5 g else Return 1 g) of
        Return r g1 \<Rightarrow>
          if 1 < length hint \<and> r = 0
          then chooseWords n wl hint (wordChoices @ [hintWord hint]) g1
          else (case secureChoice wl g1 of
                  Return w g2 \<Rightarrow> chooseWords n wl hint (wordChoices @ [w]) g2
                | Throw e \<Rightarrow> Throw e
                | Spinning \<Rightarrow> Spinning)
      | Throw e \<Rightarrow> Throw e
      | Spinning \<Rightarrow> Spinning)"

text \<open>
  The three guarded stages in the body of \<open>generatePassphrase\<close>, each on the pair of
  \<open>password\<close> and \<open>transforms\<close> that the body updates: \<open>if (opts.enableCap) {...}\<close>,
  \<open>if (opts.enableLeet) {...}\<close>, \<open>if (opts.enableInsertExtras) {...}\<close>.
\<close>

definition capStage :: "options \<Rightarrow> string \<times> transforms \<Rightarrow> rng \<Rightarrow> (string \<times> transforms) outcome" where
  "capStage opts st g =
     (if enableCap opts
      then case randomizeCapitalization (fst st) g of
             Return res g' \<Rightarrow>
               Return (cap_text res,
                       (snd st)\<lparr>capitalisation := True, lettersCount := cap_lettersCount res\<rparr>) g'
           | Throw e \<Rightarrow> Throw e
           | Spinning \<Rightarrow> Spinning
      else Return st g)"

definition leetStage :: "options \<Rightarrow> string \<times> transforms \<Rightarrow> rng \<Rightarrow> (string \<times> transforms) outcome" where
  "leetStage opts st g =
     (if enableLeet opts
      then case applyLeet (fst st) g of
             Return res g' \<Rightarrow>
               Return (leet_text res, (snd st)\<lparr>leet := True, leetChoices := leet_choices res\<rparr>) g'
           | Throw e \<Rightarrow> Throw e
           | Spinning \<Rightarrow> Spinning
      else Return st g)"

definition extrasStage :: "options \<Rightarrow> string \<times> transforms \<Rightarrow> rng \<Rightarrow> (string \<times> transforms) outcome" where
  "extrasStage opts st g =
     (if enableInsertExtras opts
      then case insertExtras (fst st) \<lparr>digits = True, symbols = True\<rparr> g of
             Return res g' \<Rightarrow>
               Return (ex_text res,
                       (snd st)\<lparr>insertions :=
                                  Some \<lparr>count = ex_count res, choiceSize = ex_choiceSize res\<rparr>,
                                baseLen := ex_baseLen res\<rparr>) g'
           | Throw e \<Rightarrow> Throw e
           | Spinning \<Rightarrow> Spinning
      else Return st g)"

definition generatePassphrase :: "string list \<Rightarrow> options \<Rightarrow> rng \<Rightarrow> result outcome" where
  "generatePassphrase wl opts g =
     (let W = length wl in
      case chooseWords (numWords opts) wl (personal opts) [] g of
        Return wordChoices g1 \<Rightarrow>
          (let pw = join wordChoices (separator opts);
               t = \<lparr>capitalisation = False, lettersCount = 0, leet = False, leetChoices = [],
                    insertions = None, baseLen = length pw\<rparr>
           in case capStage opts (pw, t) g1 of
                Return st1 g2 \<Rightarrow>
                  (case leetStage opts st1 g2 of
                     Return st2 g3 \<Rightarrow>
                       (case extrasStage opts st2 g3 of
                          Return st3 g4 \<Rightarrow>
                            Return \<lparr>password = fst st3,
                                    bits = bitsForPassphraseModel (numWords opts) W (snd st3),
                                    transforms = snd st3, words = wordChoices\<rparr> g4
                        | Throw e \<Rightarrow> Throw e
                        | Spinning \<Rightarrow> Spinning)
                   | Throw e \<Rightarrow> Throw e
                   | Spinning \<Rightarrow> Spinning)
              | Throw e \<Rightarrow> Throw e
              | Spinning \<Rightarrow> Spinning)
      | Throw e \<Rightarrow> Throw e
      | Spinning \<Rightarrow> Spinning)"

section \<open>Vocabulary of the statements\<close>

text \<open>
  \<open>fed k g\<close>: the source still delivers at least \<open>k\<close> values and each of them is below
  \<open>2^31\<close>, hence accepted by \<open>secureRandomInt n\<close> for every \<open>n\<close> from 1 to \<open>2^31\<close>.
\<close>

definition fed :: "nat \<Rightarrow> rng \<Rightarrow> bool" where
  "fed k g = (k \<le> length (raws g) \<and> (\<forall>r\<in>set (raws g). uint r < 2147483648))"

text \<open>
  The raw values of a sequence that \<open>secureRandomInt n\<close> accepts, in their order.
\<close>

definition accepted :: "int \<Rightarrow> u32 list \<Rightarrow> u32 list" where
  "accepted n rs = filter (\<lambda>r. uint r < threshold n) rs"

text \<open>
  The sizes of the candidate sets \<open>[ch, ...LEET_MAP[low]]\<close> of the characters of a string
  that have an entry in the leet table, in the order of the string.
\<close>

definition candidateSizes :: "string \<Rightarrow> nat list" where
  "candidateSizes s =
     concat (map (\<lambda>c. case LEET_MAP (toLowerCase c) of None \<Rightarrow> [] | Some alts \<Rightarrow> [Suc (length alts)]) s)"

text \<open>
  The arguments of the sampler calls that one inserted value takes in \<open>insertExtras\<close>:
  the coin and then the class when both classes are enabled, else the class alone.
\<close>

definition valueDraws :: "classes \<Rightarrow> nat list set" where
  "valueDraws opts =
     (if symbols opts \<and> digits opts then {[2, 27], [2, 10]}
      else if symbols opts then {[27]} else {[10]})"


text \<open>
  The arguments of the sampler calls that one word takes in \<open>generatePassphrase\<close>, with
  the word they give: with a personal hint of more than one character the draw among 5
  alone and the hint, or the draw among 5 and then one among the list and the word drawn;
  without such a hint the draw among the list alone.
\<close>

definition wordDraw :: "string list \<Rightarrow> string \<Rightarrow> nat list \<Rightarrow> string \<Rightarrow> bool" where
  "wordDraw wl hint d w =
     (if 1 < length hint
      then (d = [5] \<and> w = hintWord hint) \<or> (d = [5, length wl] \<and> w \<in> set wl)
      else d = [length wl] \<and> w \<in> set wl)"

text \<open>
  The bits of a list of choices: the sum of \<open>log2\<close> of the numbers of alternatives.
\<close>

definition choiceBits :: "nat list \<Rightarrow> real" where
  "choiceBits cs = (\<Sum>c\<leftarrow>cs. log 2 (real c))"

text \<open>
  What the statements on \<open>formatCrackTimeFromBits\<close> assume of the arithmetic. \<open>fin x\<close>
  says that \<open>x\<close> is a finite number, neither \<open>NaN\<close> nor infinite, and \<open>val x\<close> is then
  its value. Each of the following holds of IEEE 754 doubles with a math library whose
  results are within a few units in the last place: integer literals up to \<open>2^53\<close> are
  exact; comparisons of finite numbers are exact; \<open>Math.floor\<close> is exact; a difference is
  finite only if both operands are, and positive only if the first is the larger; the
  difference of a number at least 1 and its floor is exact; differences and products of
  magnitude up to \<open>10^6\<close>, \<open>Math.log10\<close> of a positive number and \<open>Math.pow(10, y)\<close> for
  \<open>0 \<le> y < 1\<close> are finite and within \<open>tol = 10^-9\<close> of the exact result. Nothing is
  assumed of \<open>Math.pow(10, y)\<close> for other \<open>y\<close>, where it overflows for \<open>y\<close> above 308.
\<close>

definition tol :: real where
  "tol = 1 / 10 ^ 9"

definition doubles :: "'d arith \<Rightarrow> ('d \<Rightarrow> bool) \<Rightarrow> ('d \<Rightarrow> real) \<Rightarrow> bool" where
  "doubles A fin val =
     ((\<forall>k. \<bar>k\<bar> \<le> 2 ^ 53 \<longrightarrow> fin (lit A k) \<and> val (lit A k) = real_of_int k) \<and>
      (\<forall>x y. fin x \<and> fin y \<longrightarrow> lt A x y = (val x < val y) \<and> le A x y = (val x \<le> val y)) \<and>
      (\<forall>x. fin x \<longrightarrow> fin (flr A x) \<and> val (flr A x) = of_int \<lfloor>val x\<rfloor>) \<and>
      (\<forall>x y. fin (sub A x y) \<longrightarrow> fin x \<and> fin y \<and> (0 < val (sub A x y) \<longrightarrow> val y < val x)) \<and>
      (\<forall>x y. fin x \<and> fin y \<and> \<bar>val x - val y\<bar> \<le> 10 ^ 6 \<longrightarrow>
         fin (sub A x y) \<and> \<bar>val (sub A x y) - (val x - val y)\<bar> \<le> tol) \<and>
      (\<forall>x. fin x \<and> 1 \<le> val x \<longrightarrow>
         fin (sub A x (flr A x)) \<and> val (sub A x (flr A x)) = val x - of_int \<lfloor>val x\<rfloor>) \<and>
      (\<forall>x y. fin x \<and> fin y \<and> \<bar>val x * val y\<bar> \<le> 10 ^ 6 \<longrightarrow>
         fin (mul A x y) \<and> \<bar>val (mul A x y) - val x * val y\<bar> \<le> tol) \<and>
      (\<forall>x. fin x \<and> 0 < val x \<longrightarrow>
         fin (log10 A x) \<and> \<bar>val (log10 A x) - log 10 (val x)\<bar> \<le> tol) \<and>
      (\<forall>x. fin x \<and> 0 \<le> val x \<and> val x < 1 \<longrightarrow>
         fin (pow10 A x) \<and> \<bar>val (pow10 A x) - 10 powr val x\<bar> \<le> tol))"

text \<open>
  The exact reals with \<open>Infinity\<close>, \<open>-Infinity\<close> and \<open>NaN\<close> of the first section are one
  such arithmetic, the one without rounding.
\<close>

definition reals :: "jsnum arith" where
  "reals = \<lparr>lit = of_integer, lt = js_less, le = js_less_eq, mul = js_mul, sub = js_sub,
            quot = js_div, log10 = Math_log10, pow10 = Math_pow10, flr = Math_floor\<rparr>"

fun isNum :: "jsnum \<Rightarrow> bool" where
  "isNum (Num x) = True"
| "isNum _ = False"

fun numValue :: "jsnum \<Rightarrow> real" where
  "numValue (Num x) = x"
| "numValue _ = 0"

text \<open>
  And so are the exact reals with a \<open>Math.log10\<close> that is low by \<open>tol\<close>, within what a
  math library is allowed.
\<close>

definition lowLogs :: "jsnum arith" where
  "lowLogs = reals\<lparr>log10 := \<lambda>x. js_sub (Math_log10 x) (Num tol)\<rparr>"

section \<open>The sampler\<close>

text \<open>
  Counting the raw values that the rejection loop accepts for one result: below a
  threshold that is a multiple of \<open>n\<close>, every residue has the same number of them.
\<close>

lemma residue_class_nat:
  fixes t n k :: nat
  assumes "0 < n" "n dvd t" "k < n"
  shows "card {x. x < t \<and> x mod n = k} = t div n"
proof -
  have eq: "{x. x < t \<and> x mod n = k} = (\<lambda>q. q * n + k) ` {..< t div n}"
  proof (intro set_eqI iffI)
    fix x assume "x \<in> {x. x < t \<and> x mod n = k}"
    then have x: "x < t" "x mod n = k" by auto
    have "x div n < t div n"
      using x(1) assms(1,2) by (metis div_less_iff_less_mult dvd_div_mult_self)
    moreover have "x = (x div n) * n + k" using x(2) by (metis div_mult_mod_eq)
    ultimately show "x \<in> (\<lambda>q. q * n + k) ` {..< t div n}" by blast
  next
    fix x assume "x \<in> (\<lambda>q. q * n + k) ` {..< t div n}"
    then obtain q where q: "q < t div n" "x = q * n + k" by auto
    have "Suc q * n \<le> (t div n) * n" using q(1) by (simp add: Suc_leI mult_le_mono1 del: mult_Suc)
    then have "q * n + n \<le> t" using assms(2) by simp
    then have "x < t" using q(2) assms(3) by linarith
    moreover have "x mod n = k" using q(2) assms(3) by simp
    ultimately show "x \<in> {x. x < t \<and> x mod n = k}" by simp
  qed
  have "inj_on (\<lambda>q. q * n + k) {..< t div n}"
    using assms(1) by (auto simp: inj_on_def)
  then show ?thesis unfolding eq by (simp add: card_image)
qed

lemma residue_class_word:
  fixes t n k :: nat
  assumes "0 < n" "n dvd t" "k < n" "t \<le> 2 ^ 32"
  shows "card {r :: u32. unat r < t \<and> unat r mod n = k} = t div n"
proof -
  have img: "unat ` {r :: u32. unat r < t \<and> unat r mod n = k} = {x. x < t \<and> x mod n = k}"
  proof (intro set_eqI iffI)
    fix x assume "x \<in> unat ` {r :: u32. unat r < t \<and> unat r mod n = k}"
    then show "x \<in> {x. x < t \<and> x mod n = k}" by auto
  next
    fix x assume "x \<in> {x. x < t \<and> x mod n = k}"
    then have x: "x < t" "x mod n = k" by auto
    then have "x < 2 ^ 32" using assms(4) by linarith
    then have "unat (of_nat x :: u32) = x" by (simp add: unat_of_nat take_bit_nat_eq_self)
    then show "x \<in> unat ` {r :: u32. unat r < t \<and> unat r mod n = k}"
      using x by (metis (mono_tags, lifting) image_eqI mem_Collect_eq)
  qed
  have "inj_on unat {r :: u32. unat r < t \<and> unat r mod n = k}"
    by (auto simp: inj_on_def word_unat_eq_iff)
  then have "card (unat ` {r :: u32. unat r < t \<and> unat r mod n = k}) = card {r :: u32. unat r < t \<and> unat r mod n = k}"
    by (rule card_image)
  then show ?thesis using img residue_class_nat [OF assms(1-3)] by simp
qed

lemma threshold_facts:
  assumes "1 \<le> n" "n \<le> maxUint"
  shows "n dvd threshold n" "n \<le> threshold n" "threshold n \<le> maxUint"
proof -
  have eq: "threshold n = n * (maxUint div n)"
    unfolding threshold_def by (simp add: minus_mod_eq_mult_div)
  show "n dvd threshold n" unfolding eq by simp
  have "1 \<le> maxUint div n" using assms pos_imp_zdiv_pos_iff [of n maxUint] by linarith
  then have "n * 1 \<le> n * (maxUint div n)" using assms(1) by (intro mult_left_mono) auto
  then show "n \<le> threshold n" unfolding eq by simp
  have "0 \<le> maxUint mod n" using assms(1) by simp
  then show "threshold n \<le> maxUint" unfolding threshold_def by simp
qed

lemma threshold_zero: "maxUint < n \<Longrightarrow> threshold n = 0"
  unfolding threshold_def maxUint_def by simp

lemma accepted_preimages:
  assumes "1 \<le> n" "n \<le> maxUint" "0 \<le> k" "k < n"
  shows "card {r :: u32. uint r < threshold n \<and> uint r mod n = k} = nat (threshold n div n)"
proof -
  define t' n' k' where "t' = nat (threshold n)" and "n' = nat n" and "k' = nat k"
  have tf: "n dvd threshold n" "n \<le> threshold n" "threshold n \<le> maxUint"
    using threshold_facts [OF assms(1,2)] by auto
  have ints: "threshold n = int t'" "n = int n'" "k = int k'"
    using assms tf by (simp_all add: t'_def n'_def k'_def)
  have n'pos: "0 < n'" using assms(1) by (simp add: n'_def)
  have conv: "(uint r < threshold n \<and> uint r mod n = k) = (unat r < t' \<and> unat r mod n' = k')"
    for r :: u32
  proof -
    have u: "uint r = int (unat r)" by simp
    have m: "int (unat r) mod int n' = int (unat r mod n')" by (simp add: zmod_int)
    have "(uint r < threshold n) = (unat r < t')"
      by (simp only: u ints(1) of_nat_less_iff)
    moreover have "(uint r mod n = k) = (unat r mod n' = k')"
    proof -
      have "(uint r mod n = k) = (int (unat r) mod int n' = int k')"
        using ints(2,3) u by presburger
      then show ?thesis by (simp only: m of_nat_eq_iff)
    qed
    ultimately show ?thesis by (rule arg_cong2 [where f = "(\<and>)"])
  qed
  have "card {r :: u32. unat r < t' \<and> unat r mod n' = k'} = t' div n'"
  proof (rule residue_class_word)
    show "0 < n'" by (rule n'pos)
    have "int n' dvd int t'" using tf(1) ints(1,2) by simp
    then show "n' dvd t'" by (simp only: int_dvd_int_iff)
    have "int k' < int n'" using assms(4) ints(2,3) by simp
    then show "k' < n'" by simp
    have "int t' \<le> 4294967295" using tf(3) ints(1) by (simp add: maxUint_def)
    then have "t' \<le> 4294967295" by linarith
    then show "t' \<le> 2 ^ 32" by simp
  qed
  moreover have "nat (threshold n div n) = t' div n'"
  proof -
    have "threshold n div n = int t' div int n'" using ints(1,2) by simp
    then show ?thesis by (metis nat_int zdiv_int)
  qed
  ultimately show ?thesis by (simp only: conv)
qed

lemma redraw_Some:
  "redraw n rs = Some (v, rest) \<Longrightarrow>
     \<exists>rej r. rs = rej @ r # rest \<and> (\<forall>x\<in>set rej. threshold n \<le> uint x)
       \<and> uint r < threshold n \<and> v = nat (uint r mod n)"
proof (induction rs)
  case Nil
  then show ?case by simp
next
  case (Cons a rs)
  show ?case
  proof (cases "uint a < threshold n")
    case True
    with Cons.prems have "v = nat (uint a mod n)" "rest = rs" by auto
    with True show ?thesis by (intro exI [of _ "[]"] exI [of _ a]) simp
  next
    case False
    with Cons.prems have "redraw n rs = Some (v, rest)" by simp
    from Cons.IH [OF this] obtain rej r where
      h: "rs = rej @ r # rest" "\<forall>x\<in>set rej. threshold n \<le> uint x"
         "uint r < threshold n" "v = nat (uint r mod n)" by blast
    with False show ?thesis by (intro exI [of _ "a # rej"] exI [of _ r]) auto
  qed
qed

lemma redraw_returns:
  "\<exists>r\<in>set rs. uint r < threshold n \<Longrightarrow> \<exists>v rest. redraw n rs = Some (v, rest)"
  by (induction rs) auto

lemma redraw_never: "threshold n \<le> 0 \<Longrightarrow> redraw n rs = None"
  by (induction rs) (auto simp: not_less intro: order_trans)

lemma secureRandomInt_never_returns:
  "maxUint < n \<Longrightarrow> secureRandomInt n g = Spinning"
  by (simp add: secureRandomInt_def redraw_never threshold_zero maxUint_def)

text \<open>
  C3 (as amended). For every \<open>n \<le> 0\<close> the sampler throws \<open>InvalidArgument\<close>. For every
  \<open>n\<close> from 1 to \<open>2^32 - 1\<close>: the threshold is \<open>0xFFFFFFFF - (0xFFFFFFFF mod n)\<close>, the
  script's constant standing for the size of the range; every result \<open>k\<close> in \<open>[0, n)\<close> has
  the same number \<open>threshold div n\<close>, at least one, of accepted 32-bit raw values; the
  sampler returns as soon as the source delivers one raw value below the threshold; and
  when it returns \<open>v\<close>, then \<open>v < n\<close>, every raw value drawn before the accepted one was at
  least the threshold and was discarded, and \<open>v\<close> is the accepted raw value modulo \<open>n\<close>.
\<close>

theorem secureRandomInt_unbiased:
  "(n \<le> 0 \<longrightarrow> secureRandomInt n g = Throw InvalidArgument) \<and>
   (1 \<le> n \<and> n \<le> 4294967295 \<longrightarrow>
      threshold n = 4294967295 - 4294967295 mod n \<and>
      0 < threshold n div n \<and>
      (\<forall>k. 0 \<le> k \<and> k < n \<longrightarrow>
         card {r :: u32. uint r < threshold n \<and> uint r mod n = k} = nat (threshold n div n)) \<and>
      ((\<exists>r\<in>set (raws g). uint r < threshold n) \<longrightarrow> (\<exists>v g'. secureRandomInt n g = Return v g')) \<and>
      (\<forall>v g'. secureRandomInt n g = Return v g' \<longrightarrow>
         int v < n \<and>
         (\<exists>rej r. raws g = rej @ r # raws g' \<and> (\<forall>x\<in>set rej. threshold n \<le> uint x)
            \<and> uint r < threshold n \<and> int v = uint r mod n)))"
proof (intro conjI impI)
  assume "n \<le> 0"
  then show "secureRandomInt n g = Throw InvalidArgument" by (simp add: secureRandomInt_def)
next
  assume n: "1 \<le> n \<and> n \<le> 4294967295"
  then have n1: "1 \<le> n" and n2: "n \<le> maxUint" by (simp_all add: maxUint_def)
  show "threshold n = 4294967295 - 4294967295 mod n" by (simp add: threshold_def maxUint_def)
  show "0 < threshold n div n"
    using threshold_facts [OF n1 n2] n1 by (simp add: pos_imp_zdiv_pos_iff)
  show "\<forall>k. 0 \<le> k \<and> k < n \<longrightarrow>
         card {r :: u32. uint r < threshold n \<and> uint r mod n = k} = nat (threshold n div n)"
    using accepted_preimages [OF n1 n2] by blast
  show "\<forall>v g'. secureRandomInt n g = Return v g' \<longrightarrow>
         int v < n \<and>
         (\<exists>rej r. raws g = rej @ r # raws g' \<and> (\<forall>x\<in>set rej. threshold n \<le> uint x)
            \<and> uint r < threshold n \<and> int v = uint r mod n)"
  proof (intro allI impI)
    fix v g'
    assume ret: "secureRandomInt n g = Return v g'"
    then obtain rest where rd: "redraw n (raws g) = Some (v, rest)" and g': "raws g' = rest"
      using n1 by (auto simp: secureRandomInt_def split: option.splits)
    from redraw_Some [OF rd] obtain rej r where
      h: "raws g = rej @ r # rest" "\<forall>x\<in>set rej. threshold n \<le> uint x"
         "uint r < threshold n" "v = nat (uint r mod n)" by blast
    have "0 \<le> uint r mod n" "uint r mod n < n" using n1 by simp_all
    then have "int v = uint r mod n" "int v < n" using h(4) by simp_all
    then show "int v < n \<and>
         (\<exists>rej r. raws g = rej @ r # raws g' \<and> (\<forall>x\<in>set rej. threshold n \<le> uint x)
            \<and> uint r < threshold n \<and> int v = uint r mod n)"
      using h g' by blast
  qed
next
  assume n: "1 \<le> n \<and> n \<le> 4294967295" and ex: "\<exists>r\<in>set (raws g). uint r < threshold n"
  from redraw_returns [OF ex] obtain v rest where "redraw n (raws g) = Some (v, rest)" by blast
  then show "\<exists>v g'. secureRandomInt n g = Return v g'"
    using n by (simp add: secureRandomInt_def)
qed

text \<open>
  C3, witness: \<open>n = 0\<close> throws; for \<open>n = 7\<close> the threshold is 4294967292, the result 3 has
  613566756 accepted raw values, and on the draws 4294967295 (discarded) and 23 the
  result is \<open>23 mod 7 = 2\<close>.
\<close>

theorem secureRandomInt_unbiased_witness:
  "secureRandomInt 0 \<lparr>raws = [4294967295, 23], choices = []\<rparr> = Throw InvalidArgument \<and>
   threshold 7 = 4294967292 \<and>
   card {r :: u32. uint r < threshold 7 \<and> uint r mod 7 = 3} = 613566756 \<and>
   secureRandomInt 7 \<lparr>raws = [4294967295, 23], choices = []\<rparr> = Return 2 \<lparr>raws = [], choices = [7]\<rparr>"
proof -
  let ?g = "\<lparr>raws = [4294967295, 23 :: u32], choices = []\<rparr>"
  have t7: "threshold 7 = 4294967292" by (simp add: threshold_def maxUint_def)
  have run: "secureRandomInt 7 ?g = Return 2 \<lparr>raws = [], choices = [7]\<rparr>"
    by (simp add: secureRandomInt_def t7)
  have range: "1 \<le> (7 :: int) \<and> (7 :: int) \<le> 4294967295" by simp
  have k: "0 \<le> (3 :: int) \<and> (3 :: int) < 7" by simp
  note inst = secureRandomInt_unbiased [of 7 ?g]
  have "\<forall>k. 0 \<le> k \<and> k < 7 \<longrightarrow>
      card {r :: u32. uint r < threshold 7 \<and> uint r mod 7 = k} = nat (threshold 7 div 7)"
    using inst range by blast
  then have "card {r :: u32. uint r < threshold 7 \<and> uint r mod 7 = 3} = nat (threshold 7 div 7)"
    using k by blast
  also have "nat (threshold 7 div 7) = 613566756" unfolding t7 by simp
  finally have c: "card {r :: u32. uint r < threshold 7 \<and> uint r mod 7 = 3} = 613566756" .
  have "(0 :: int) \<le> 0" by simp
  then have thr: "secureRandomInt 0 ?g = Throw InvalidArgument"
    using secureRandomInt_unbiased [of 0 ?g] by blast
  show ?thesis using thr t7 c run by blast
qed

text \<open>
  C3, counterexample to the claim as stated for every \<open>n \<ge> 1\<close>: for \<open>n = 2^33\<close> the
  threshold is 0, so that no raw value is accepted, not even 0, and the sampler does not
  return. And the constant of the script is \<open>0xFFFFFFFF\<close>, not the size \<open>2^32\<close> of the
  range: for \<open>n = 2\<close> the raw value 4294967294 is discarded, although it is below
  \<open>2^32 - (2^32 mod 2)\<close>.
\<close>

theorem secureRandomInt_large_range_counterexample:
  "1 \<le> (8589934592 :: int) \<and> threshold 8589934592 = 0 \<and>
   secureRandomInt 8589934592 \<lparr>raws = [0, 1, 4294967295], choices = []\<rparr> = Spinning \<and>
   (4294967294 :: int) < 4294967296 - 4294967296 mod 2 \<and>
   secureRandomInt 2 \<lparr>raws = [4294967294, 3], choices = []\<rparr>
     = Return 1 \<lparr>raws = [], choices = [2]\<rparr>"
  by (simp add: secureRandomInt_def threshold_def maxUint_def)

section \<open>What a call of the sampler leaves behind\<close>

lemma secureRandomInt_Return:
  assumes "secureRandomInt n g = Return v g'"
  shows "0 < n" "int v < n" "choices g' = choices g @ [nat n]"
proof -
  show pos: "0 < n" using assms by (auto simp: secureRandomInt_def split: if_splits)
  obtain rest where rd: "redraw n (raws g) = Some (v, rest)"
    and g': "g' = \<lparr>raws = rest, choices = choices g @ [nat n]\<rparr>"
    using assms pos by (auto simp: secureRandomInt_def split: option.splits)
  from redraw_Some [OF rd] obtain r :: u32 where "v = nat (uint r mod n)" by blast
  moreover have "0 \<le> uint r mod n" "uint r mod n < n" using pos by simp_all
  ultimately show "int v < n" by simp
  show "choices g' = choices g @ [nat n]" using g' by simp
qed

lemma secureChoice_Return:
  assumes "secureChoice arr g = Return x g'"
  shows "x \<in> set arr" "choices g' = choices g @ [length arr]"
proof -
  from assms obtain i where i: "secureRandomInt (int (length arr)) g = Return i g'" and x: "x = arr ! i"
    by (auto simp: secureChoice_def split: outcome.splits)
  from secureRandomInt_Return [OF i] have "i < length arr" "choices g' = choices g @ [length arr]"
    by simp_all
  then show "x \<in> set arr" "choices g' = choices g @ [length arr]" using x by simp_all
qed

lemma threshold_large:
  assumes "1 \<le> n" "n \<le> 2147483648"
  shows "2147483648 \<le> threshold n"
proof -
  have "maxUint mod n < n" using assms(1) by simp
  then show ?thesis using assms(2) unfolding threshold_def maxUint_def by linarith
qed

lemma secureRandomInt_fed:
  assumes "1 \<le> n" "n \<le> 2147483648" "fed (Suc k) g"
  shows "\<exists>v g'. secureRandomInt n g = Return v g' \<and> fed k g'"
proof -
  from assms(3) obtain r rs where g: "raws g = r # rs"
    by (cases "raws g") (auto simp: fed_def)
  have small: "uint r < 2147483648" "\<forall>x\<in>set rs. uint x < 2147483648" "k \<le> length rs"
    using assms(3) g by (auto simp: fed_def)
  have "uint r < threshold n" using small(1) threshold_large [OF assms(1,2)] by linarith
  then have "secureRandomInt n g
      = Return (nat (uint r mod n)) \<lparr>raws = rs, choices = choices g @ [nat n]\<rparr>"
    using assms(1) g by (simp add: secureRandomInt_def)
  moreover have "fed k \<lparr>raws = rs, choices = choices g @ [nat n]\<rparr>"
    using small by (simp add: fed_def)
  ultimately show ?thesis by blast
qed

lemma secureChoice_fed:
  assumes "arr \<noteq> []" "length arr \<le> 2147483648" "fed (Suc k) g"
  shows "\<exists>x g'. secureChoice arr g = Return x g' \<and> fed k g'"
proof -
  have "1 \<le> int (length arr)" using assms(1) by (cases arr) simp_all
  moreover have "int (length arr) \<le> 2147483648" using assms(2) by simp
  ultimately obtain v g' where "secureRandomInt (int (length arr)) g = Return v g'" "fed k g'"
    using secureRandomInt_fed [OF _ _ assms(3)] by blast
  then show ?thesis by (simp add: secureChoice_def)
qed

lemma fed_mono: "fed k g \<Longrightarrow> j \<le> k \<Longrightarrow> fed j g"
  by (simp add: fed_def)

lemma drawChars_Return:
  "drawChars n pool pwd g = Return out g' \<Longrightarrow>
     (\<exists>cs. out = pwd @ cs \<and> length cs = n \<and> set cs \<subseteq> set pool)
     \<and> choices g' = choices g @ replicate n (length pool)"
proof (induction n arbitrary: pwd g)
  case 0
  then show ?case by simp
next
  case (Suc n)
  from Suc.prems obtain ch g1 where
    c: "secureChoice pool g = Return ch g1" and rest: "drawChars n pool (pwd @ [ch]) g1 = Return out g'"
    by (auto split: outcome.splits)
  from Suc.IH [OF rest] obtain cs where
    cs: "out = (pwd @ [ch]) @ cs" "length cs = n" "set cs \<subseteq> set pool"
    and ch: "choices g' = choices g1 @ replicate n (length pool)" by blast
  from secureChoice_Return [OF c] have m: "ch \<in> set pool" "choices g1 = choices g @ [length pool]"
    by simp_all
  have "out = pwd @ (ch # cs) \<and> length (ch # cs) = Suc n \<and> set (ch # cs) \<subseteq> set pool"
    using cs m(1) by simp
  moreover have "choices g' = choices g @ replicate (Suc n) (length pool)"
    using ch m(2) by (simp add: replicate_append_same)
  ultimately show ?case by blast
qed

lemma drawChars_fed:
  "pool \<noteq> [] \<Longrightarrow> length pool \<le> 2147483648 \<Longrightarrow> fed (n + k) g \<Longrightarrow>
     \<exists>out g'. drawChars n pool pwd g = Return out g' \<and> fed k g'"
proof (induction n arbitrary: pwd g)
  case 0
  then show ?case by simp
next
  case (Suc n)
  from Suc.prems(3) have "fed (Suc (n + k)) g" by simp
  from secureChoice_fed [OF Suc.prems(1,2) this] obtain ch g1 where
    c: "secureChoice pool g = Return ch g1" and f: "fed (n + k) g1" by blast
  from Suc.IH [OF Suc.prems(1,2) f] obtain out g' where
    "drawChars n pool (pwd @ [ch]) g1 = Return out g'" "fed k g'" by blast
  then show ?case using c by simp
qed


lemma capLoop_Return:
  "capLoop s out n g = Return res g' \<Longrightarrow>
     (\<exists>ys. cap_text res = out @ ys \<and>
        list_all2 (\<lambda>c y. if isLetter c then y = toUpperCase c \<or> y = toLowerCase c else y = c) s ys)
     \<and> cap_lettersCount res = n + length (filter isLetter s)
     \<and> choices g' = choices g @ replicate (length (filter isLetter s)) 2"
proof (induction s arbitrary: out n g)
  case Nil
  then show ?case by auto
next
  case (Cons ch rest)
  show ?case
  proof (cases "isLetter ch")
    case True
    with Cons.prems obtain r g1 where
      d: "secureRandomInt 2 g = Return r g1" and
      k: "capLoop rest (out @ [if r = 1 then toUpperCase ch else toLowerCase ch]) (n + 1) g1 = Return res g'"
      by (auto split: outcome.splits)
    let ?y = "if r = 1 then toUpperCase ch else toLowerCase ch"
    from Cons.IH [OF k] obtain ys where
      ys: "cap_text res = (out @ [?y]) @ ys"
          "list_all2 (\<lambda>c y. if isLetter c then y = toUpperCase c \<or> y = toLowerCase c else y = c) rest ys"
      and cnt: "cap_lettersCount res = (n + 1) + length (filter isLetter rest)"
      and ch: "choices g' = choices g1 @ replicate (length (filter isLetter rest)) 2" by blast
    have c1: "choices g1 = choices g @ [2]" using secureRandomInt_Return(3) [OF d] by simp
    have "cap_text res = out @ (?y # ys)" using ys(1) by simp
    moreover have "list_all2 (\<lambda>c y. if isLetter c then y = toUpperCase c \<or> y = toLowerCase c else y = c)
        (ch # rest) (?y # ys)" using ys(2) True by simp
    moreover have "cap_lettersCount res = n + length (filter isLetter (ch # rest))"
      using cnt True by simp
    moreover have "choices g' = choices g @ replicate (length (filter isLetter (ch # rest))) 2"
      using ch c1 True by (simp add: replicate_append_same)
    ultimately show ?thesis by blast
  next
    case False
    with Cons.prems have k: "capLoop rest (out @ [ch]) n g = Return res g'" by simp
    from Cons.IH [OF k] obtain ys where
      ys: "cap_text res = (out @ [ch]) @ ys"
          "list_all2 (\<lambda>c y. if isLetter c then y = toUpperCase c \<or> y = toLowerCase c else y = c) rest ys"
      and cnt: "cap_lettersCount res = n + length (filter isLetter rest)"
      and ch: "choices g' = choices g @ replicate (length (filter isLetter rest)) 2" by blast
    have "cap_text res = out @ (ch # ys)" using ys(1) by simp
    moreover have "list_all2 (\<lambda>c y. if isLetter c then y = toUpperCase c \<or> y = toLowerCase c else y = c)
        (ch # rest) (ch # ys)" using ys(2) False by simp
    ultimately show ?thesis using cnt ch False by auto
  qed
qed

lemma capLoop_fed:
  "fed (length s + k) g \<Longrightarrow> \<exists>res g'. capLoop s out n g = Return res g' \<and> fed k g'"
proof (induction s arbitrary: out n g)
  case Nil
  then show ?case by simp
next
  case (Cons ch rest)
  show ?case
  proof (cases "isLetter ch")
    case True
    from Cons.prems have "fed (Suc (length rest + k)) g" by simp
    from secureRandomInt_fed [OF _ _ this, of 2] obtain r g1 where
      d: "secureRandomInt 2 g = Return r g1" and f: "fed (length rest + k) g1" by auto
    from Cons.IH [OF f] obtain res g' where
      "capLoop rest (out @ [if r = 1 then toUpperCase ch else toLowerCase ch]) (n + 1) g1 = Return res g'"
      "fed k g'" by blast
    then show ?thesis using d True by simp
  next
    case False
    from Cons.prems have "fed (length rest + k) g" by (rule fed_mono) simp
    from Cons.IH [OF this] obtain res g' where
      "capLoop rest (out @ [ch]) n g = Return res g'" "fed k g'" by blast
    then show ?thesis using False by simp
  qed
qed

lemma LEET_MAP_short: "LEET_MAP c = Some alts \<Longrightarrow> length alts = 1 \<or> length alts = 2"
  by (auto simp: LEET_MAP_def split: if_splits)

lemma leetLoop_Return:
  "leetLoop s out cs g = Return res g' \<Longrightarrow>
     (\<exists>ys. leet_text res = out @ ys \<and>
        list_all2 (\<lambda>c y. case LEET_MAP (toLowerCase c) of None \<Rightarrow> y = c
                         | Some alts \<Rightarrow> y \<in> set (c # alts)) s ys)
     \<and> leet_choices res = cs @ candidateSizes s
     \<and> choices g' = choices g @ candidateSizes s"
proof (induction s arbitrary: out cs g)
  case Nil
  then show ?case by (auto simp: candidateSizes_def)
next
  case (Cons ch rest)
  show ?case
  proof (cases "LEET_MAP (toLowerCase ch)")
    case None
    with Cons.prems have k: "leetLoop rest (out @ [ch]) cs g = Return res g'" by simp
    from Cons.IH [OF k] obtain ys where
      ys: "leet_text res = (out @ [ch]) @ ys"
          "list_all2 (\<lambda>c y. case LEET_MAP (toLowerCase c) of None \<Rightarrow> y = c
                         | Some alts \<Rightarrow> y \<in> set (c # alts)) rest ys"
      and r: "leet_choices res = cs @ candidateSizes rest"
             "choices g' = choices g @ candidateSizes rest" by blast
    have "leet_text res = out @ (ch # ys)" using ys(1) by simp
    moreover have "list_all2 (\<lambda>c y. case LEET_MAP (toLowerCase c) of None \<Rightarrow> y = c
                         | Some alts \<Rightarrow> y \<in> set (c # alts)) (ch # rest) (ch # ys)"
      using ys(2) None by simp
    moreover have "candidateSizes (ch # rest) = candidateSizes rest"
      using None by (simp add: candidateSizes_def)
    ultimately show ?thesis using r by auto
  next
    case (Some alts)
    with Cons.prems obtain pick g1 where
      d: "secureChoice (ch # alts) g = Return pick g1" and
      k: "leetLoop rest (out @ [pick]) (cs @ [length (ch # alts)]) g1 = Return res g'"
      by (auto simp: Let_def split: outcome.splits)
    from Cons.IH [OF k] obtain ys where
      ys: "leet_text res = (out @ [pick]) @ ys"
          "list_all2 (\<lambda>c y. case LEET_MAP (toLowerCase c) of None \<Rightarrow> y = c
                         | Some alts \<Rightarrow> y \<in> set (c # alts)) rest ys"
      and r: "leet_choices res = (cs @ [length (ch # alts)]) @ candidateSizes rest"
             "choices g' = choices g1 @ candidateSizes rest" by blast
    from secureChoice_Return [OF d] have p: "pick \<in> set (ch # alts)"
      "choices g1 = choices g @ [length (ch # alts)]" by simp_all
    have "leet_text res = out @ (pick # ys)" using ys(1) by simp
    moreover have "list_all2 (\<lambda>c y. case LEET_MAP (toLowerCase c) of None \<Rightarrow> y = c
                         | Some alts \<Rightarrow> y \<in> set (c # alts)) (ch # rest) (pick # ys)"
      using ys(2) Some p(1) by simp
    moreover have "candidateSizes (ch # rest) = Suc (length alts) # candidateSizes rest"
      using Some by (simp add: candidateSizes_def)
    ultimately show ?thesis using r p(2) by auto
  qed
qed

lemma leetLoop_fed:
  "fed (length s + k) g \<Longrightarrow> \<exists>res g'. leetLoop s out cs g = Return res g' \<and> fed k g'"
proof (induction s arbitrary: out cs g)
  case Nil
  then show ?case by simp
next
  case (Cons ch rest)
  show ?case
  proof (cases "LEET_MAP (toLowerCase ch)")
    case None
    from Cons.prems have "fed (length rest + k) g" by (rule fed_mono) simp
    from Cons.IH [OF this] obtain res g' where
      "leetLoop rest (out @ [ch]) cs g = Return res g'" "fed k g'" by blast
    then show ?thesis using None by simp
  next
    case (Some alts)
    from Cons.prems have f0: "fed (Suc (length rest + k)) g" by simp
    have "length (ch # alts) \<le> 2147483648" using LEET_MAP_short [OF Some] by auto
    from secureChoice_fed [OF _ this f0] obtain pick g1 where
      d: "secureChoice (ch # alts) g = Return pick g1" and f: "fed (length rest + k) g1" by auto
    from Cons.IH [OF f] obtain res g' where
      "leetLoop rest (out @ [pick]) (cs @ [length (ch # alts)]) g1 = Return res g'" "fed k g'"
      by blast
    then show ?thesis using d Some by (simp add: Let_def)
  qed
qed


lemma SYMBOLS_length: "length SYMBOLS = 27"
  by (simp add: SYMBOLS_def)

lemma maxInsertOf_bounds: "1 \<le> maxInsertOf n" "maxInsertOf n \<le> 4"
  by (simp_all add: maxInsertOf_def)

lemma maxInsertOf_div: "maxInsertOf n = min 4 (max 1 ((n + 5) div 6))"
proof -
  have "\<lceil>real n / 6\<rceil> = \<lceil>real_of_int (int n) / real_of_int 6\<rceil>" by simp
  also have "\<dots> = - (- int n div 6)" by (rule ceiling_divide_eq_div)
  also have "\<dots> = int ((n + 5) div 6)" by linarith
  finally show ?thesis by (simp add: maxInsertOf_def)
qed

lemma pickInserts_Return:
  "pickInserts n opts ins g = Return out g' \<Longrightarrow>
     length out = length ins + n \<and>
     (\<exists>vs. length vs = n \<and> set vs \<subseteq> valueDraws opts \<and> choices g' = choices g @ concat vs)"
proof (induction n arbitrary: ins g)
  case 0
  then show ?case by simp
next
  case (Suc n)
  show ?case
  proof (cases "symbols opts \<and> digits opts")
    case True
    with Suc.prems obtain pickType g1 where
      c: "secureRandomInt 2 g = Return pickType g1" by (auto split: outcome.splits)
    have c1: "choices g1 = choices g @ [2]" using secureRandomInt_Return(3) [OF c] by simp
    show ?thesis
    proof (cases "pickType = 1")
      case one: True
      with Suc.prems True c obtain x g2 where
        d: "secureChoice SYMBOLS g1 = Return x g2" and
        k: "pickInserts n opts (ins @ [x]) g2 = Return out g'"
        by (auto split: outcome.splits)
      from Suc.IH [OF k] obtain vs where
        vs: "length out = length (ins @ [x]) + n" "length vs = n" "set vs \<subseteq> valueDraws opts"
            "choices g' = choices g2 @ concat vs" by blast
      have c2: "choices g2 = choices g1 @ [27]"
        using secureChoice_Return(2) [OF d] by (simp add: SYMBOLS_length)
      have "length ([2, 27] # vs) = Suc n" "set ([2, 27] # vs) \<subseteq> valueDraws opts"
        "choices g' = choices g @ concat ([2, 27] # vs)"
        using vs c1 c2 True by (simp_all add: valueDraws_def)
      then show ?thesis using vs(1) by (intro conjI exI [of _ "[2, 27] # vs"]) simp_all
    next
      case other: False
      with Suc.prems True c obtain d g2 where
        d: "secureRandomInt 10 g1 = Return d g2" and
        k: "pickInserts n opts (ins @ [char_of (48 + d)]) g2 = Return out g'"
        by (auto split: outcome.splits)
      from Suc.IH [OF k] obtain vs where
        vs: "length out = length (ins @ [char_of (48 + d)]) + n" "length vs = n"
            "set vs \<subseteq> valueDraws opts" "choices g' = choices g2 @ concat vs" by blast
      have c2: "choices g2 = choices g1 @ [10]" using secureRandomInt_Return(3) [OF d] by simp
      have "length ([2, 10] # vs) = Suc n" "set ([2, 10] # vs) \<subseteq> valueDraws opts"
        "choices g' = choices g @ concat ([2, 10] # vs)"
        using vs c1 c2 True by (simp_all add: valueDraws_def)
      then show ?thesis using vs(1) by (intro conjI exI [of _ "[2, 10] # vs"]) simp_all
    qed
  next
    case False
    show ?thesis
    proof (cases "symbols opts")
      case sym: True
      with Suc.prems False obtain x g2 where
        d: "secureChoice SYMBOLS g = Return x g2" and
        k: "pickInserts n opts (ins @ [x]) g2 = Return out g'"
        by (auto split: outcome.splits)
      from Suc.IH [OF k] obtain vs where
        vs: "length out = length (ins @ [x]) + n" "length vs = n" "set vs \<subseteq> valueDraws opts"
            "choices g' = choices g2 @ concat vs" by blast
      have c2: "choices g2 = choices g @ [27]"
        using secureChoice_Return(2) [OF d] by (simp add: SYMBOLS_length)
      have "length ([27] # vs) = Suc n" "set ([27] # vs) \<subseteq> valueDraws opts"
        "choices g' = choices g @ concat ([27] # vs)"
        using vs c2 False sym by (simp_all add: valueDraws_def)
      then show ?thesis using vs(1) by (intro conjI exI [of _ "[27] # vs"]) simp_all
    next
      case nosym: False
      with Suc.prems obtain d g2 where
        d: "secureRandomInt 10 g = Return d g2" and
        k: "pickInserts n opts (ins @ [char_of (48 + d)]) g2 = Return out g'"
        by (auto split: outcome.splits)
      from Suc.IH [OF k] obtain vs where
        vs: "length out = length (ins @ [char_of (48 + d)]) + n" "length vs = n"
            "set vs \<subseteq> valueDraws opts" "choices g' = choices g2 @ concat vs" by blast
      have c2: "choices g2 = choices g @ [10]" using secureRandomInt_Return(3) [OF d] by simp
      have "length ([10] # vs) = Suc n" "set ([10] # vs) \<subseteq> valueDraws opts"
        "choices g' = choices g @ concat ([10] # vs)"
        using vs c2 nosym by (simp_all add: valueDraws_def)
      then show ?thesis using vs(1) by (intro conjI exI [of _ "[10] # vs"]) simp_all
    qed
  qed
qed

lemma placeInserts_Return:
  "placeInserts xs arr g = Return out g' \<Longrightarrow>
     length out = length arr + length xs \<and>
     choices g' = choices g @ map (\<lambda>i. length arr + i + 1) [0..<length xs]"
proof (induction xs arbitrary: arr g)
  case Nil
  then show ?case by simp
next
  case (Cons x xs)
  from Cons.prems obtain pos g1 where
    d: "secureRandomInt (int (length arr + 1)) g = Return pos g1" and
    k: "placeInserts xs (take pos arr @ [x] @ drop pos arr) g1 = Return out g'"
    by (auto split: outcome.splits)
  have c1: "choices g1 = choices g @ [length arr + 1]"
    using secureRandomInt_Return(3) [OF d] by simp
  have len: "length (take pos arr @ [x] @ drop pos arr) = length arr + 1"
    using secureRandomInt_Return(2) [OF d] by simp
  from Cons.IH [OF k] have
    r: "length out = length arr + 1 + length xs"
       "choices g' = choices g1 @ map (\<lambda>i. length arr + 1 + i + 1) [0..<length xs]"
    unfolding len by simp_all
  have "map (\<lambda>i. length arr + i + 1) [0..<length (x # xs)]
      = (length arr + 1) # map (\<lambda>i. length arr + 1 + i + 1) [0..<length xs]"
    by (simp add: upt_conv_Cons map_Suc_upt [symmetric] del: upt_Suc)
  then show ?case using r c1 by simp
qed


lemma pickInserts_fed:
  "fed (2 * n + k) g \<Longrightarrow> \<exists>out g'. pickInserts n opts ins g = Return out g' \<and> fed k g'"
proof (induction n arbitrary: ins g)
  case 0
  then show ?case by simp
next
  case (Suc n)
  have f0: "fed (Suc (Suc (2 * n + k))) g" using Suc.prems by simp
  obtain pickType g1 where
    p: "(if symbols opts \<and> digits opts then secureRandomInt 2 g
         else Return (if symbols opts then 1 else 0) g) = Return pickType g1"
    and f1: "fed (Suc (2 * n + k)) g1"
  proof (cases "symbols opts \<and> digits opts")
    case True
    from secureRandomInt_fed [OF _ _ f0, of 2] obtain v g1 where
      "secureRandomInt 2 g = Return v g1" "fed (Suc (2 * n + k)) g1" by auto
    then show ?thesis using True that [of v g1] by simp
  next
    case False
    have "fed (Suc (2 * n + k)) g" using f0 by (rule fed_mono) simp
    moreover have "(if symbols opts \<and> digits opts then secureRandomInt 2 g
         else Return (if symbols opts then 1 else 0) g) = Return (if symbols opts then 1 else 0) g"
      using False by (rule if_not_P)
    ultimately show ?thesis using that [of "if symbols opts then 1 else 0" g] by blast
  qed
  show ?case
  proof (cases "pickType = 1")
    case True
    have "length SYMBOLS \<le> 2147483648" "SYMBOLS \<noteq> []" by (simp_all add: SYMBOLS_def)
    from secureChoice_fed [OF this(2) this(1) f1] obtain x g2 where
      d: "secureChoice SYMBOLS g1 = Return x g2" and f2: "fed (2 * n + k) g2" by blast
    from Suc.IH [OF f2] obtain out g' where
      "pickInserts n opts (ins @ [x]) g2 = Return out g'" "fed k g'" by blast
    then show ?thesis using p d True by simp
  next
    case False
    from secureRandomInt_fed [OF _ _ f1, of 10] obtain d g2 where
      d: "secureRandomInt 10 g1 = Return d g2" and f2: "fed (2 * n + k) g2" by auto
    from Suc.IH [OF f2] obtain out g' where
      "pickInserts n opts (ins @ [char_of (48 + d)]) g2 = Return out g'" "fed k g'" by blast
    then show ?thesis using p d False by simp
  qed
qed

lemma placeInserts_fed:
  "fed (length xs + k) g \<Longrightarrow> length arr + length xs \<le> 2147483648 \<Longrightarrow>
     \<exists>out g'. placeInserts xs arr g = Return out g' \<and> fed k g'"
proof (induction xs arbitrary: arr g)
  case Nil
  then show ?case by simp
next
  case (Cons x xs)
  have f0: "fed (Suc (length xs + k)) g" using Cons.prems(1) by simp
  have "int (length arr + 1) \<le> 2147483648" using Cons.prems(2) by simp
  from secureRandomInt_fed [OF _ this f0] obtain pos g1 where
    d: "secureRandomInt (int (length arr + 1)) g = Return pos g1" and f1: "fed (length xs + k) g1"
    by auto
  have "length (take pos arr @ [x] @ drop pos arr) = length arr + 1"
    using secureRandomInt_Return(2) [OF d] by simp
  then have "length (take pos arr @ [x] @ drop pos arr) + length xs \<le> 2147483648"
    using Cons.prems(2) by simp
  from Cons.IH [OF f1 this] obtain out g' where
    "placeInserts xs (take pos arr @ [x] @ drop pos arr) g1 = Return out g'" "fed k g'" by blast
  then show ?case using d by simp
qed





lemma insertExtras_Return:
  assumes "insertExtras s opts g = Return res g'"
  shows "\<exists>r g1 vs.
      secureRandomInt (int (maxInsertOf (length s))) g = Return r g1 \<and>
      ex_count res = 1 + r \<and> ex_count res \<le> maxInsertOf (length s) \<and>
      ex_baseLen res = length s \<and>
      ex_choiceSize res = (if symbols opts \<and> digits opts then 37 else if symbols opts then 27 else 10) \<and>
      length (ex_text res) = length s + ex_count res \<and>
      length vs = ex_count res \<and> set vs \<subseteq> valueDraws opts \<and>
      choices g' = choices g @ [maxInsertOf (length s)] @ concat vs
                   @ map (\<lambda>i. length s + i + 1) [0..<ex_count res]"
proof -
  from assms obtain r g1 ins g2 final where
    a: "secureRandomInt (int (maxInsertOf (length s))) g = Return r g1" and
    b: "pickInserts (1 + r) opts [] g1 = Return ins g2" and
    c: "placeInserts ins s g2 = Return final g'" and
    res: "res = \<lparr>ex_text = final, ex_count = length ins,
                 ex_choiceSize = (if symbols opts \<and> digits opts then length SYMBOLS + 10
                                  else if symbols opts then length SYMBOLS else 10),
                 ex_baseLen = length s\<rparr>"
    by (auto simp: insertExtras_def Let_def split: outcome.splits)
  from secureRandomInt_Return [OF a] have
    r: "r < maxInsertOf (length s)" "choices g1 = choices g @ [maxInsertOf (length s)]" by simp_all
  from pickInserts_Return [OF b] obtain vs where
    vs: "length ins = 1 + r" "length vs = 1 + r" "set vs \<subseteq> valueDraws opts"
        "choices g2 = choices g1 @ concat vs" by auto
  from placeInserts_Return [OF c] have
    p: "length final = length s + length ins"
       "choices g' = choices g2 @ map (\<lambda>i. length s + i + 1) [0..<length ins]" by simp_all
  show ?thesis
    using a r vs p unfolding res
    by (intro exI [of _ r] exI [of _ g1] exI [of _ vs]) (simp add: SYMBOLS_length)
qed

lemma insertExtras_fed:
  assumes "fed 13 g" "length s + 4 \<le> 2147483648"
  shows "\<exists>res g'. insertExtras s opts g = Return res g'"
proof -
  have m: "1 \<le> int (maxInsertOf (length s))" "int (maxInsertOf (length s)) \<le> 2147483648"
    using maxInsertOf_bounds [of "length s"] by simp_all
  have "fed (Suc 12) g" using assms(1) by simp
  from secureRandomInt_fed [OF m this] obtain r g1 where
    a: "secureRandomInt (int (maxInsertOf (length s))) g = Return r g1" and f1: "fed 12 g1" by blast
  have r: "1 + r \<le> 4"
    using secureRandomInt_Return(2) [OF a] maxInsertOf_bounds(2) [of "length s"] by simp
  have "fed (2 * (1 + r) + (1 + r)) g1" using f1 by (rule fed_mono) (use r in simp)
  from pickInserts_fed [OF this] obtain ins g2 where
    b: "pickInserts (1 + r) opts [] g1 = Return ins g2" and f2: "fed (1 + r) g2" by blast
  have li: "length ins = 1 + r" using pickInserts_Return [OF b] by simp
  have "fed (length ins + 0) g2" using f2 li by simp
  moreover have "length s + length ins \<le> 2147483648" using li r assms(2) by simp
  ultimately obtain final g3 where c: "placeInserts ins s g2 = Return final g3"
    using placeInserts_fed by blast
  show ?thesis using a b c by (simp add: insertExtras_def Let_def)
qed

section \<open>The transformation stages\<close>

lemma maxInsertOf_code [code]: "maxInsertOf n = min 4 (max 1 ((n + 5) div 6))"
  by (rule maxInsertOf_div)

lemma list_all2_nthD2:
  "list_all2 P xs ys \<Longrightarrow> i < length xs \<Longrightarrow> P (xs ! i) (ys ! i)"
  by (simp add: list_all2_conv_all_nth)



text \<open>
  C10. The capitalization stage and the leet stage return a string of the length of their
  input; capitalization leaves every character that is not a letter where it is, leet
  every character whose lower-cased form has no entry in the table. The insertion stage
  returns a string of length \<open>baseLen + count\<close> with \<open>1 \<le> count \<le> 4\<close>. Each stage does
  return when the source delivers enough accepted values.
\<close>

theorem stage_lengths:
  "(randomizeCapitalization s g = Return cres g1 \<longrightarrow>
      length (cap_text cres) = length s \<and>
      (\<forall>i<length s. \<not> isLetter (s ! i) \<longrightarrow> cap_text cres ! i = s ! i)) \<and>
   (applyLeet s g = Return lres g2 \<longrightarrow>
      length (leet_text lres) = length s \<and>
      (\<forall>i<length s. LEET_MAP (toLowerCase (s ! i)) = None \<longrightarrow> leet_text lres ! i = s ! i)) \<and>
   (insertExtras s opts g = Return xres g3 \<longrightarrow>
      ex_baseLen xres = length s \<and> length (ex_text xres) = ex_baseLen xres + ex_count xres \<and>
      1 \<le> ex_count xres \<and> ex_count xres \<le> 4) \<and>
   (fed (length s) g \<longrightarrow>
      (\<exists>res g'. randomizeCapitalization s g = Return res g') \<and>
      (\<exists>res g'. applyLeet s g = Return res g')) \<and>
   (fed 13 g \<and> length s + 4 \<le> 2147483648 \<longrightarrow> (\<exists>res g'. insertExtras s opts g = Return res g'))"
proof (intro conjI impI)
  assume "randomizeCapitalization s g = Return cres g1"
  then have "capLoop s [] 0 g = Return cres g1" by (simp add: randomizeCapitalization_def)
  from capLoop_Return [OF this] obtain ys where
    ys: "cap_text cres = ys"
        "list_all2 (\<lambda>c y. if isLetter c then y = toUpperCase c \<or> y = toLowerCase c else y = c) s ys"
    by auto
  show "length (cap_text cres) = length s" using ys by (simp add: list_all2_lengthD)
  show "\<forall>i<length s. \<not> isLetter (s ! i) \<longrightarrow> cap_text cres ! i = s ! i"
    using list_all2_nthD2 [OF ys(2)] ys(1) by auto
next
  assume "applyLeet s g = Return lres g2"
  then have "leetLoop s [] [] g = Return lres g2" by (simp add: applyLeet_def)
  from leetLoop_Return [OF this] obtain ys where
    ys: "leet_text lres = ys"
        "list_all2 (\<lambda>c y. case LEET_MAP (toLowerCase c) of None \<Rightarrow> y = c
                         | Some alts \<Rightarrow> y \<in> set (c # alts)) s ys"
    by auto
  show "length (leet_text lres) = length s" using ys by (simp add: list_all2_lengthD)
  show "\<forall>i<length s. LEET_MAP (toLowerCase (s ! i)) = None \<longrightarrow> leet_text lres ! i = s ! i"
  proof (intro allI impI)
    fix i assume i: "i < length s" and none: "LEET_MAP (toLowerCase (s ! i)) = None"
    from list_all2_nthD2 [OF ys(2) i] show "leet_text lres ! i = s ! i"
      using none ys(1) by simp
  qed
next
  assume x: "insertExtras s opts g = Return xres g3"
  from insertExtras_Return [OF x] obtain r where
    h: "ex_count xres = 1 + r" "ex_count xres \<le> maxInsertOf (length s)"
       "ex_baseLen xres = length s" "length (ex_text xres) = length s + ex_count xres"
    by blast
  show "ex_baseLen xres = length s" by (rule h(3))
  show "length (ex_text xres) = ex_baseLen xres + ex_count xres" using h(3,4) by simp
  show "1 \<le> ex_count xres" using h(1) by simp
  show "ex_count xres \<le> 4" using h(2) maxInsertOf_bounds(2) [of "length s"] by linarith
next
  assume f: "fed (length s) g"
  then have "fed (length s + 0) g" by simp
  from capLoop_fed [OF this] show "\<exists>res g'. randomizeCapitalization s g = Return res g'"
    unfolding randomizeCapitalization_def by blast
  from leetLoop_fed [OF \<open>fed (length s + 0) g\<close>] show "\<exists>res g'. applyLeet s g = Return res g'"
    unfolding applyLeet_def by blast
next
  assume "fed 13 g \<and> length s + 4 \<le> 2147483648"
  then show "\<exists>res g'. insertExtras s opts g = Return res g'"
    using insertExtras_fed by blast
qed

text \<open>C10, witness: the three stages on the string \<open>ab-c\<close>.\<close>

theorem stage_lengths_witness:
  "randomizeCapitalization ''ab-c'' \<lparr>raws = [1, 0, 1, 1, 3, 0, 5, 7, 0, 0, 0, 0, 0], choices = []\<rparr>
     = Return \<lparr>cap_text = ''Ab-C'', cap_lettersCount = 3\<rparr>
         \<lparr>raws = [1, 3, 0, 5, 7, 0, 0, 0, 0, 0], choices = [2, 2, 2]\<rparr> \<and>
   applyLeet ''ab-c'' \<lparr>raws = [1, 0, 1, 1, 3, 0, 5, 7, 0, 0, 0, 0, 0], choices = []\<rparr>
     = Return \<lparr>leet_text = ''4b-c'', leet_choices = [3, 2]\<rparr>
         \<lparr>raws = [1, 1, 3, 0, 5, 7, 0, 0, 0, 0, 0], choices = [3, 2]\<rparr> \<and>
   insertExtras ''ab-c'' \<lparr>digits = True, symbols = True\<rparr>
       \<lparr>raws = [1, 0, 1, 1, 3, 0, 5, 7, 0, 0, 0, 0, 0], choices = []\<rparr>
     = Return \<lparr>ex_text = ''a1b-c'', ex_count = 1, ex_choiceSize = 37, ex_baseLen = 4\<rparr>
         \<lparr>raws = [3, 0, 5, 7, 0, 0, 0, 0, 0], choices = [1, 2, 10, 5]\<rparr> \<and>
   length ''Ab-C'' = length ''ab-c'' \<and> ''Ab-C'' ! 2 = ''ab-c'' ! 2 \<and>
   length ''4b-c'' = length ''ab-c'' \<and> ''4b-c'' ! 2 = ''ab-c'' ! 2 \<and>
   length ''a1b-c'' = 4 + 1 \<and>
   fed 13 \<lparr>raws = [1, 0, 1, 1, 3, 0, 5, 7, 0, 0, 0, 0, 0], choices = []\<rparr>"
proof -
  let ?g = "\<lparr>raws = [1, 0, 1, 1, 3, 0, 5, 7, 0, 0, 0, 0, 0 :: u32], choices = []\<rparr>"
  let ?c = "\<lparr>cap_text = ''Ab-C'', cap_lettersCount = 3\<rparr>"
  let ?l = "\<lparr>leet_text = ''4b-c'', leet_choices = [3, 2]\<rparr>"
  let ?x = "\<lparr>ex_text = ''a1b-c'', ex_count = 1, ex_choiceSize = 37, ex_baseLen = 4\<rparr>"
  let ?g1 = "\<lparr>raws = [1, 3, 0, 5, 7, 0, 0, 0, 0, 0 :: u32], choices = [2, 2, 2]\<rparr>"
  let ?g2 = "\<lparr>raws = [1, 1, 3, 0, 5, 7, 0, 0, 0, 0, 0 :: u32], choices = [3, 2]\<rparr>"
  let ?g3 = "\<lparr>raws = [3, 0, 5, 7, 0, 0, 0, 0, 0 :: u32], choices = [1, 2, 10, 5]\<rparr>"
  have c: "randomizeCapitalization ''ab-c'' ?g = Return ?c ?g1" by code_simp
  have l: "applyLeet ''ab-c'' ?g = Return ?l ?g2" by code_simp
  have x: "insertExtras ''ab-c'' \<lparr>digits = True, symbols = True\<rparr> ?g = Return ?x ?g3" by code_simp
  have f: "fed 13 ?g" by (simp add: fed_def)
  note inst = stage_lengths [of "''ab-c''" ?g ?c ?g1 ?l ?g2 "\<lparr>digits = True, symbols = True\<rparr>" ?x ?g3]
  have n2: "\<not> isLetter (''ab-c'' ! 2)" by (simp add: isLetter_def)
  have n1: "LEET_MAP (toLowerCase (''ab-c'' ! 2)) = None" by code_simp
  from inst c have "length (cap_text ?c) = length ''ab-c''"
    "\<forall>i<length ''ab-c''. \<not> isLetter (''ab-c'' ! i) \<longrightarrow> cap_text ?c ! i = ''ab-c'' ! i" by blast+
  then have r1: "length ''Ab-C'' = length ''ab-c''" "''Ab-C'' ! 2 = ''ab-c'' ! 2"
    using n2 by simp_all
  from inst l have "length (leet_text ?l) = length ''ab-c''"
    "\<forall>i<length ''ab-c''. LEET_MAP (toLowerCase (''ab-c'' ! i)) = None \<longrightarrow> leet_text ?l ! i = ''ab-c'' ! i"
    by blast+
  then have r2: "length ''4b-c'' = length ''ab-c''" "''4b-c'' ! 2 = ''ab-c'' ! 2"
    using n1 by simp_all
  from inst x have "length (ex_text ?x) = ex_baseLen ?x + ex_count ?x" by blast
  then have r3: "length ''a1b-c'' = 4 + 1" by simp
  show ?thesis using c l x r1 r2 r3 f by blast
qed

section \<open>Character mode with an empty pool\<close>

text \<open>
  C8, the code at the failing input: with no subset enabled \<open>generateCharacterPassword\<close>
  does not throw and returns the empty password, but the returned object has no \<open>bits\<close>
  property at all, for every length; zero bits are what \<open>bitsForCharacterMode\<close> reports
  for an empty pool.
\<close>

theorem generateCharacterPassword_empty_pool:
  "generateCharacterPassword len \<lparr>digits = False, symbols = False, lower = False, upper = False\<rparr> g
     = Return \<lparr>c_password = [], c_bits = None, c_transforms = None\<rparr> g
   \<and> bitsForCharacterMode len
         (int (charPoolSize \<lparr>digits = False, symbols = False, lower = False, upper = False\<rparr>)) = Num 0"
  by (simp add: generateCharacterPassword_def buildPool_def bitsForCharacterMode_def charPoolSize_def)

section \<open>The embedded fallback list\<close>

lemma loadWordlist_falls_back:
  "\<not> (\<exists>arr. resp = Response True (Some (JsonArray arr)) \<and> 10 \<le> length arr) \<Longrightarrow>
     loadWordlist resp = embedded_fallback"
  by (auto simp: loadWordlist_def split: fetched.splits option.splits parsed.splits bool.splits)

lemma loadWordlist_accepts:
  "10 \<le> length arr \<Longrightarrow> loadWordlist (Response True (Some (JsonArray arr))) = arr"
  by (simp add: loadWordlist_def)

lemma fallback_length: "length embedded_fallback = 186"
  by (simp add: embedded_fallback_def)

lemma fallback_repeats: "embedded_fallback ! 11 = ''crest'' \<and> embedded_fallback ! 59 = ''crest''"
  by (simp add: embedded_fallback_def)

lemma fallback_not_distinct: "\<not> distinct embedded_fallback"
proof
  assume d: "distinct embedded_fallback"
  have "(11::nat) < length embedded_fallback" "(59::nat) < length embedded_fallback"
    by (simp_all add: fallback_length)
  then have "embedded_fallback ! 11 \<noteq> embedded_fallback ! 59"
    using d by (simp add: nth_eq_iff_index_eq)
  then show False using fallback_repeats by simp
qed

text \<open>
  C9, the code at the failing input: when the fetch is rejected the list in use is the
  embedded one, and that list has 186 entries, not 200, and repeats words (\<open>crest\<close> is
  entry 11 and entry 59).
\<close>

theorem loadWordlist_fallback_size:
  "loadWordlist FetchRejected = embedded_fallback
   \<and> length (loadWordlist FetchRejected) = 186
   \<and> loadWordlist FetchRejected ! 11 = loadWordlist FetchRejected ! 59
   \<and> \<not> distinct (loadWordlist FetchRejected)"
proof -
  have "loadWordlist FetchRejected = embedded_fallback" by (simp add: loadWordlist_def)
  then show ?thesis
    using fallback_length fallback_repeats fallback_not_distinct by simp
qed

section \<open>Binomial coefficients in log2 space\<close>

lemma js_ops_Num:
  "of_integer n = Num (real_of_int n)" "of_count m = Num (real m)"
  by (simp_all add: of_integer_def of_count_def)

lemma Math_log2_pos: "0 < x \<Longrightarrow> Math_log2 (Num x) = Num (log 2 x)"
  by (simp add: Math_log2_def)

lemma binomial_step:
  "real ((m + Suc q) choose Suc q) = real ((m + q) choose q) * (real (m + Suc q) / real (Suc q))"
proof -
  have "Suc q * (Suc (m + q) choose Suc q) = Suc (m + q) * ((m + q) choose q)"
    by (rule Suc_times_binomial)
  then have "real (Suc q) * real (Suc (m + q) choose Suc q) = real (Suc (m + q)) * real ((m + q) choose q)"
    by (metis of_nat_mult)
  moreover have "0 < real (Suc q)" by simp
  ultimately have "real (Suc (m + q) choose Suc q) = real (Suc (m + q)) * real ((m + q) choose q) / real (Suc q)"
    by (simp add: field_simps)
  then show ?thesis by simp
qed

lemma nCr_loop:
  "fold (\<lambda>i sum. js_add sum (Math_log2 (js_div (of_integer (int m + i)) (of_integer i))))
      [1..int q] (Num 0)
   = Num (log 2 (real ((m + q) choose q)))
   \<and> log 2 (real ((m + q) choose q))
       = (\<Sum>i = 1..int q. log 2 (real_of_int (int m + i) / real_of_int i))"
proof (induction q)
  case 0
  then show ?case by simp
next
  case (Suc q)
  note [simp] = js_ops_Num
  have up: "[1..int (Suc q)] = [1..int q] @ [int q + 1]"
    using upto_rec2 [of 1 "int (Suc q)"] by (simp add: add.commute)
  have pos: "0 < real ((m + q) choose q)" "0 < real (m + Suc q) / real (Suc q)"
    by (simp_all add: zero_less_binomial)
  have st: "log 2 (real ((m + Suc q) choose Suc q))
      = log 2 (real ((m + q) choose q)) + log 2 (real (m + Suc q) / real (Suc q))"
    unfolding binomial_step using pos by (rule log_mult_pos)
  have cast: "real_of_int (int m + (int q + 1)) / real_of_int (int q + 1)
      = real (m + Suc q) / real (Suc q)" by (simp add: ac_simps)
  have set: "{1..int (Suc q)} = insert (int q + 1) {1..int q}" by auto
  have sum: "(\<Sum>i = 1..int (Suc q). log 2 (real_of_int (int m + i) / real_of_int i))
      = (\<Sum>i = 1..int q. log 2 (real_of_int (int m + i) / real_of_int i))
        + log 2 (real (m + Suc q) / real (Suc q))"
  proof -
    let ?f = "\<lambda>i. log 2 (real_of_int (int m + i) / real_of_int i)"
    have "sum ?f (insert (int q + 1) {1..int q}) = ?f (int q + 1) + sum ?f {1..int q}"
      by (rule sum.insert) simp_all
    then show ?thesis unfolding set cast by (simp only: add.commute)
  qed
  have "fold (\<lambda>i sum. js_add sum (Math_log2 (js_div (of_integer (int m + i)) (of_integer i))))
      [1..int (Suc q)] (Num 0)
    = js_add (Num (log 2 (real ((m + q) choose q))))
        (Math_log2 (js_div (of_integer (int m + (int q + 1))) (of_integer (int q + 1))))"
    unfolding up using Suc.IH by simp
  also have "js_div (of_integer (int m + (int q + 1))) (of_integer (int q + 1))
      = Num (real (m + Suc q) / real (Suc q))"
    by (simp add: add.commute)
  also have "Math_log2 (Num (real (m + Suc q) / real (Suc q))) = Num (log 2 (real (m + Suc q) / real (Suc q)))"
    using pos(2) by (rule Math_log2_pos)
  finally show ?case using st sum Suc.IH by simp
qed


lemma log2_nCr_value:
  assumes "0 \<le> k" "k \<le> n"
  shows "log2_nCr n k = Num (log 2 (real (nat n choose nat k)))"
    and "log 2 (real (nat n choose nat k))
      = (\<Sum>i = 1..min k (n - k). log 2 (real_of_int (n - min k (n - k) + i) / real_of_int i))"
proof -
  define k' where "k' = min k (n - k)"
  define q where "q = nat k'"
  define m where "m = nat (n - k')"
  have k': "0 \<le> k'" "k' \<le> n" using assms unfolding k'_def by linarith+
  have kn: "nat k \<le> nat n" using assms nat_mono by blast
  have iq: "int q = k'" and im: "int m = n - k'" using k' by (simp_all add: q_def m_def)
  have mq: "m + q = nat n" using k' by (simp add: q_def m_def nat_add_distrib [symmetric])
  have ch: "(m + q) choose q = nat n choose nat k"
  proof (cases "k \<le> n - k")
    case True
    then have "q = nat k" by (simp add: q_def k'_def)
    then show ?thesis using mq by simp
  next
    case False
    then have "q = nat n - nat k" using assms by (simp add: q_def k'_def nat_diff_distrib)
    then show ?thesis using mq kn binomial_symmetric [of "nat k" "nat n"] by simp
  qed
  have unfold: "log2_nCr n k
      = fold (\<lambda>i sum. js_add sum (Math_log2 (js_div (of_integer (int m + i)) (of_integer i))))
          [1..int q] (Num 0)"
    using assms unfolding log2_nCr_def Let_def k'_def [symmetric] iq im by simp
  note loop = nCr_loop [of m q]
  show "log2_nCr n k = Num (log 2 (real (nat n choose nat k)))"
    using loop unfold ch by simp
  have "log 2 (real (nat n choose nat k))
      = (\<Sum>i = 1..k'. log 2 (real_of_int (n - k' + i) / real_of_int i))"
    using loop unfolding ch iq im by simp
  then show "log 2 (real (nat n choose nat k))
      = (\<Sum>i = 1..min k (n - k). log 2 (real_of_int (n - min k (n - k) + i) / real_of_int i))"
    unfolding k'_def .
qed

text \<open>
  C6. \<open>log2_nCr n k\<close> is \<open>-Infinity\<close> for \<open>k < 0\<close> and for \<open>k > n\<close>. For
  \<open>0 \<le> k \<le> n\<close> it is the sum of \<open>log2((n - k' + i) / i)\<close> for \<open>i\<close> from 1 to
  \<open>k' = min(k, n - k)\<close>, and 2 to that power is the binomial coefficient. Numbers are
  reals here, so the equality is exact.
\<close>

theorem log2_nCr_binomial:
  "(k < 0 \<or> n < k \<longrightarrow> log2_nCr n k = NegInfinity) \<and>
   (0 \<le> k \<and> k \<le> n \<longrightarrow>
      log2_nCr n k
        = Num (\<Sum>i = 1..min k (n - k). log 2 (real_of_int (n - min k (n - k) + i) / real_of_int i)) \<and>
      (\<exists>s. log2_nCr n k = Num s \<and> 2 powr s = real (nat n choose nat k)))"
proof (intro conjI impI)
  assume "k < 0 \<or> n < k"
  then show "log2_nCr n k = NegInfinity" by (auto simp: log2_nCr_def)
next
  assume r: "0 \<le> k \<and> k \<le> n"
  then have k: "0 \<le> k" "k \<le> n" by simp_all
  note v = log2_nCr_value [OF k]
  show "log2_nCr n k
        = Num (\<Sum>i = 1..min k (n - k). log 2 (real_of_int (n - min k (n - k) + i) / real_of_int i))"
    using v by simp
  have "nat k \<le> nat n" using k nat_mono by blast
  then have "0 < real (nat n choose nat k)" by (simp add: zero_less_binomial)
  then have "2 powr log 2 (real (nat n choose nat k)) = real (nat n choose nat k)"
    by (simp add: powr_log_cancel)
  then show "\<exists>s. log2_nCr n k = Num s \<and> 2 powr s = real (nat n choose nat k)"
    using v(1) by blast
qed

text \<open>
  C6, witness: \<open>C(5, 2) = 10\<close>, and \<open>k = 7\<close> and \<open>k = -1\<close> give \<open>-Infinity\<close>.
\<close>

theorem log2_nCr_binomial_witness:
  "log2_nCr 5 7 = NegInfinity \<and> log2_nCr 5 (- 1) = NegInfinity \<and>
   log2_nCr 5 2 = Num (log 2 10) \<and> 2 powr (log 2 10) = (10 :: real)"
proof -
  have a: "log2_nCr 5 7 = NegInfinity" using log2_nCr_binomial [of 7 5] by simp
  have b: "log2_nCr 5 (- 1) = NegInfinity" using log2_nCr_binomial [of "- 1" 5] by simp
  have "(0 :: int) \<le> 2 \<and> (2 :: int) \<le> 5" by simp
  with log2_nCr_binomial [of 2 5] obtain s where
    s: "log2_nCr 5 2 = Num s" "2 powr s = real (nat 5 choose nat 2)" by blast
  have "(nat 5 choose nat 2) = 10" by (simp add: eval_nat_numeral binomial_eq_0)
  then have p: "2 powr s = 10" using s(2) by simp
  then have "log 2 (2 powr s) = log 2 10" by simp
  then have "s = log 2 10" by simp
  then show ?thesis using a b s(1) p by simp
qed

section \<open>Character mode\<close>

lemma log_above_ratio:
  fixes b x :: real
  assumes "1 < b" "0 < x" "b ^ p < x ^ q"
  shows "real p < real q * log b x"
proof -
  have "log b (b ^ p) < log b (x ^ q)"
    using assms by (subst log_less_cancel_iff) simp_all
  moreover have "log b (b ^ p) = real p" using assms(1) by (simp add: log_pow_cancel)
  moreover have "log b (x ^ q) = real q * log b x" using assms(2) by (simp add: log_nat_power)
  ultimately show ?thesis by simp
qed

lemma log_below_ratio:
  fixes b x :: real
  assumes "1 < b" "0 < x" "x ^ q < b ^ p"
  shows "real q * log b x < real p"
proof -
  have "log b (x ^ q) < log b (b ^ p)"
    using assms by (subst log_less_cancel_iff) simp_all
  moreover have "log b (b ^ p) = real p" using assms(1) by (simp add: log_pow_cancel)
  moreover have "log b (x ^ q) = real q * log b x" using assms(2) by (simp add: log_nat_power)
  ultimately show ?thesis by simp
qed

lemma log2_36_bounds: "82.715 < 16 * log 2 36" "16 * log 2 36 < 82.725"
proof -
  have "real 274 < real 53 * log 2 36" by (rule log_above_ratio) simp_all
  then show "82.715 < 16 * log 2 36" by simp
  have "real 47 * log 2 36 < real 243" by (rule log_below_ratio) simp_all
  then show "16 * log 2 36 < 82.725" by simp
qed

lemma log2_200_bounds: "22.925 < 3 * log 2 200" "3 * log 2 200 < 22.935"
proof -
  have "real 107 < real 14 * log 2 200" by (rule log_above_ratio) simp_all
  then show "22.925 < 3 * log 2 200" by simp
  have "real 45 * log 2 200 < real 344" by (rule log_below_ratio) simp_all
  then show "3 * log 2 200 < 22.935" by simp
qed

lemma buildPool_alphabet:
  "buildPool cfg =
     (if lower cfg then ''abcdefghijklmnopqrstuvwxyz'' else [])
     @ (if upper cfg then ''ABCDEFGHIJKLMNOPQRSTUVWXYZ'' else [])
     @ (if digits cfg then ''0123456789'' else [])
     @ (if symbols cfg then ''!@#$%^&*()-_=+[]{};:,./?<>~'' else [])"
proof -
  have l: "map (\<lambda>i. char_of (97 + i)) [0..<26] = ''abcdefghijklmnopqrstuvwxyz''" by code_simp
  have u: "map (\<lambda>i. char_of (65 + i)) [0..<26] = ''ABCDEFGHIJKLMNOPQRSTUVWXYZ''" by code_simp
  have d: "map (\<lambda>i. char_of (48 + i)) [0..<10] = ''0123456789''" by code_simp
  show ?thesis unfolding buildPool_def l u d SYMBOLS_def ..
qed

lemma buildPool_length: "length (buildPool cfg) = charPoolSize cfg"
  by (simp add: buildPool_def charPoolSize_def)

lemma bitsForCharacterMode_value:
  "0 < n \<Longrightarrow> bitsForCharacterMode len n = Num (real_of_int len * log 2 (real_of_int n))"
  by (simp add: bitsForCharacterMode_def of_integer_def Math_log2_def)

lemma redraw_None: "accepted n rs = [] \<Longrightarrow> redraw n rs = None"
  by (induction rs) (auto simp: accepted_def split: if_splits)

lemma redraw_Cons:
  "accepted n rs = a # as \<Longrightarrow>
     \<exists>rest. redraw n rs = Some (nat (uint a mod n), rest) \<and> accepted n rest = as"
  by (induction rs) (auto simp: accepted_def split: if_splits)

lemma secureChoice_accepted:
  assumes "pool \<noteq> []" "accepted (int (length pool)) (raws g) = a # as"
  shows "\<exists>g1. secureChoice pool g = Return (pool ! nat (uint a mod int (length pool))) g1
           \<and> accepted (int (length pool)) (raws g1) = as
           \<and> choices g1 = choices g @ [length pool]"
proof -
  from redraw_Cons [OF assms(2)] obtain rest where
    r: "redraw (int (length pool)) (raws g) = Some (nat (uint a mod int (length pool)), rest)"
       "accepted (int (length pool)) rest = as" by blast
  have "0 < int (length pool)" using assms(1) by simp
  then have "secureChoice pool g = Return (pool ! nat (uint a mod int (length pool)))
      \<lparr>raws = rest, choices = choices g @ [length pool]\<rparr>"
    using r(1) by (simp add: secureChoice_def secureRandomInt_def)
  then show ?thesis using r(2) by simp
qed

lemma secureChoice_starved:
  assumes "pool \<noteq> []" "accepted (int (length pool)) (raws g) = []"
  shows "secureChoice pool g = Spinning"
proof -
  have "0 < int (length pool)" using assms(1) by simp
  then show ?thesis
    using redraw_None [OF assms(2)] by (simp add: secureChoice_def secureRandomInt_def)
qed

lemma drawChars_exact:
  "pool \<noteq> [] \<Longrightarrow> k \<le> length (accepted (int (length pool)) (raws g)) \<Longrightarrow>
     \<exists>g'. drawChars k pool pwd g
            = Return (pwd @ map (\<lambda>r. pool ! nat (uint r mod int (length pool)))
                              (take k (accepted (int (length pool)) (raws g)))) g'
        \<and> accepted (int (length pool)) (raws g') = drop k (accepted (int (length pool)) (raws g))
        \<and> choices g' = choices g @ replicate k (length pool)"
proof (induction k arbitrary: pwd g)
  case 0
  then show ?case by simp
next
  case (Suc k)
  from Suc.prems(2) obtain a as where
    acc: "accepted (int (length pool)) (raws g) = a # as" and k: "k \<le> length as"
    by (cases "accepted (int (length pool)) (raws g)") auto
  from secureChoice_accepted [OF Suc.prems(1) acc] obtain g1 where
    c: "secureChoice pool g = Return (pool ! nat (uint a mod int (length pool))) g1"
    and a1: "accepted (int (length pool)) (raws g1) = as"
    and c1: "choices g1 = choices g @ [length pool]" by blast
  have "k \<le> length (accepted (int (length pool)) (raws g1))" using k a1 by simp
  from Suc.IH [OF Suc.prems(1) this, of "pwd @ [pool ! nat (uint a mod int (length pool))]"]
  obtain g' where
    d: "drawChars k pool (pwd @ [pool ! nat (uint a mod int (length pool))]) g1
          = Return ((pwd @ [pool ! nat (uint a mod int (length pool))])
                     @ map (\<lambda>r. pool ! nat (uint r mod int (length pool))) (take k as)) g'"
    and a': "accepted (int (length pool)) (raws g') = drop k as"
    and c': "choices g' = choices g1 @ replicate k (length pool)"
    unfolding a1 by blast
  have "drawChars (Suc k) pool pwd g
      = Return (pwd @ map (\<lambda>r. pool ! nat (uint r mod int (length pool)))
                          (take (Suc k) (accepted (int (length pool)) (raws g)))) g'"
    using c d unfolding acc by simp
  moreover have "accepted (int (length pool)) (raws g')
      = drop (Suc k) (accepted (int (length pool)) (raws g))"
    using a' unfolding acc by simp
  moreover have "choices g' = choices g @ replicate (Suc k) (length pool)"
    using c' c1 by (simp add: replicate_append_same)
  ultimately show ?case by blast
qed

lemma drawChars_starved:
  "pool \<noteq> [] \<Longrightarrow> length (accepted (int (length pool)) (raws g)) < k \<Longrightarrow>
     drawChars k pool pwd g = Spinning"
proof (induction k arbitrary: pwd g)
  case 0
  then show ?case by simp
next
  case (Suc k)
  show ?case
  proof (cases "accepted (int (length pool)) (raws g)")
    case Nil
    from secureChoice_starved [OF Suc.prems(1) Nil] show ?thesis by simp
  next
    case (Cons a as)
    from secureChoice_accepted [OF Suc.prems(1) Cons] obtain g1 where
      c: "secureChoice pool g = Return (pool ! nat (uint a mod int (length pool))) g1"
      and a1: "accepted (int (length pool)) (raws g1) = as" by blast
    have "length (accepted (int (length pool)) (raws g1)) < k"
      using Suc.prems(2) Cons a1 by simp
    from Suc.IH [OF Suc.prems(1) this] show ?thesis using c by simp
  qed
qed

lemma fibre_count:
  fixes pool :: "'a list"
  assumes "distinct pool" "pool \<noteq> []" "int (length pool) \<le> maxUint"
  shows "set t \<subseteq> set pool \<Longrightarrow>
     card {rs :: u32 list. length rs = length t
             \<and> (\<forall>r\<in>set rs. uint r < threshold (int (length pool)))
             \<and> map (\<lambda>r. pool ! nat (uint r mod int (length pool))) rs = t}
       = nat (threshold (int (length pool)) div int (length pool)) ^ length t"
proof (induction t)
  case Nil
  have "{rs :: u32 list. length rs = length ([] :: 'a list)
             \<and> (\<forall>r\<in>set rs. uint r < threshold (int (length pool)))
             \<and> map (\<lambda>r. pool ! nat (uint r mod int (length pool))) rs = []} = {[]}"
    by auto
  then show ?case by simp
next
  case (Cons c t)
  let ?p = "int (length pool)"
  let ?pick = "\<lambda>r :: u32. pool ! nat (uint r mod ?p)"
  let ?S = "\<lambda>t. {rs :: u32 list. length rs = length t
             \<and> (\<forall>r\<in>set rs. uint r < threshold ?p) \<and> map ?pick rs = t}"
  let ?A = "{r :: u32. uint r < threshold ?p \<and> ?pick r = c}"
  have p1: "1 \<le> ?p" using assms(2) by (cases pool) simp_all
  from Cons.prems obtain j where j: "j < length pool" "pool ! j = c"
    by (auto simp: in_set_conv_nth)
  have pick: "(?pick r = c) = (uint r mod ?p = int j)" for r :: u32
  proof -
    have b: "0 \<le> uint r mod ?p" "uint r mod ?p < ?p"
      using pos_mod_sign [of ?p "uint r"] pos_mod_bound [of ?p "uint r"] p1 by linarith+
    then have "nat (uint r mod ?p) < length pool" by simp
    then have "(pool ! nat (uint r mod ?p) = pool ! j) = (nat (uint r mod ?p) = j)"
      using assms(1) j(1) by (simp add: nth_eq_iff_index_eq)
    also have "\<dots> = (uint r mod ?p = int j)" using b by auto
    finally show ?thesis using j(2) by simp
  qed
  have "?A = {r :: u32. uint r < threshold ?p \<and> uint r mod ?p = int j}"
    by (simp only: pick)
  then have cA: "card ?A = nat (threshold ?p div ?p)"
    using accepted_preimages [OF p1 assms(3), of "int j"] j(1) by simp
  have eq: "?S (c # t) = (\<lambda>(r, rs). r # rs) ` (?A \<times> ?S t)"
  proof (intro set_eqI iffI)
    fix xs assume "xs \<in> ?S (c # t)"
    then obtain r rs where "xs = r # rs" "r \<in> ?A" "rs \<in> ?S t"
      by (cases xs) auto
    then show "xs \<in> (\<lambda>(r, rs). r # rs) ` (?A \<times> ?S t)" by auto
  next
    fix xs assume "xs \<in> (\<lambda>(r, rs). r # rs) ` (?A \<times> ?S t)"
    then show "xs \<in> ?S (c # t)" by auto
  qed
  have inj: "inj_on (\<lambda>(r, rs). r # rs) (?A \<times> ?S t)" by (auto simp: inj_on_def)
  have "card (?S (c # t)) = card (?A \<times> ?S t)"
    unfolding eq using inj by (rule card_image)
  also have "\<dots> = card ?A * card (?S t)" by (rule card_cartesian_product)
  also have "\<dots> = nat (threshold ?p div ?p) * nat (threshold ?p div ?p) ^ length t"
    using Cons.IH Cons.prems cA by simp
  finally show ?case by simp
qed

lemma distinct_parts:
  "distinct (a @ b @ c @ d) \<Longrightarrow>
     distinct ((if p then a else []) @ (if q then b else []) @ (if r then c else [])
               @ (if s then d else []))"
  by auto

lemma buildPool_distinct: "distinct (buildPool cfg)"
proof -
  have "distinct (''abcdefghijklmnopqrstuvwxyz'' @ ''ABCDEFGHIJKLMNOPQRSTUVWXYZ''
                  @ ''0123456789'' @ ''!@#$%^&*()-_=+[]{};:,./?<>~'')" by code_simp
  then show ?thesis unfolding buildPool_alphabet by (rule distinct_parts)
qed

text \<open>
  C4 (as amended). For \<open>length \<ge> 1\<close> and at least one subset enabled, character mode
  returns exactly when the source delivers \<open>length\<close> raw values that the sampler accepts
  for the size of the pool, and does not return before. The password then has exactly
  \<open>length\<close> characters, and its \<open>i\<close>-th character is \<open>pool[r mod poolSize]\<close> for the
  \<open>i\<close>-th accepted raw value \<open>r\<close>: the value of its own call \<open>secureChoice(pool)\<close>, on
  the same pool whatever was drawn before (with replacement); the sampler is called for
  nothing else, and the reported bits are \<open>length * log2(poolSize)\<close>. Every string of
  that length over the alphabet is the password of the same number
  \<open>(threshold div poolSize) ^ length\<close>, at least one, of sequences of accepted raw values:
  the characters are uniform and independent of each other when the raw values are. The
  alphabet is the concatenation of the enabled subsets, without repetition: 26 lower-case
  letters, 26 upper-case letters, 10 digits, the 27 symbols. For \<open>length = 16\<close> and
  lower-case letters with digits the pool has 36 characters and the bits are
  \<open>16 * log2(36)\<close>, which is 82.72 to two places.
\<close>

theorem generateCharacterPassword_entropy:
  "(1 \<le> len \<and> (lower cfg \<or> upper cfg \<or> digits cfg \<or> symbols cfg) \<longrightarrow>
      (nat len \<le> length (accepted (int (charPoolSize cfg)) (raws g)) \<longrightarrow>
         (\<exists>g'. generateCharacterPassword len cfg g
                 = Return \<lparr>c_password =
                              map (\<lambda>r. buildPool cfg ! nat (uint r mod int (charPoolSize cfg)))
                                (take (nat len) (accepted (int (charPoolSize cfg)) (raws g))),
                            c_bits = Some (Num (real_of_int len * log 2 (real (charPoolSize cfg)))),
                            c_transforms = Some \<lparr>poolSize = charPoolSize cfg, pwd_length = len\<rparr>\<rparr> g'
             \<and> accepted (int (charPoolSize cfg)) (raws g')
                 = drop (nat len) (accepted (int (charPoolSize cfg)) (raws g))
             \<and> choices g' = choices g @ replicate (nat len) (charPoolSize cfg))) \<and>
      (length (accepted (int (charPoolSize cfg)) (raws g)) < nat len \<longrightarrow>
         generateCharacterPassword len cfg g = Spinning) \<and>
      (\<forall>res g'. generateCharacterPassword len cfg g = Return res g' \<longrightarrow>
         length (c_password res) = nat len \<and> set (c_password res) \<subseteq> set (buildPool cfg)) \<and>
      0 < threshold (int (charPoolSize cfg)) div int (charPoolSize cfg) \<and>
      (\<forall>t. length t = nat len \<and> set t \<subseteq> set (buildPool cfg) \<longrightarrow>
         card {rs :: u32 list. length rs = nat len
                 \<and> (\<forall>r\<in>set rs. uint r < threshold (int (charPoolSize cfg)))
                 \<and> map (\<lambda>r. buildPool cfg ! nat (uint r mod int (charPoolSize cfg))) rs = t}
           = nat (threshold (int (charPoolSize cfg)) div int (charPoolSize cfg)) ^ nat len)) \<and>
   (1 \<le> len \<and> (lower cfg \<or> upper cfg \<or> digits cfg \<or> symbols cfg) \<and> fed (nat len) g \<longrightarrow>
      (\<exists>res g'. generateCharacterPassword len cfg g = Return res g')) \<and>
   buildPool cfg =
     (if lower cfg then ''abcdefghijklmnopqrstuvwxyz'' else [])
     @ (if upper cfg then ''ABCDEFGHIJKLMNOPQRSTUVWXYZ'' else [])
     @ (if digits cfg then ''0123456789'' else [])
     @ (if symbols cfg then ''!@#$%^&*()-_=+[]{};:,./?<>~'' else []) \<and>
   distinct (buildPool cfg) \<and>
   length (buildPool cfg) = charPoolSize cfg \<and>
   charPoolSize \<lparr>digits = True, symbols = False, lower = True, upper = False\<rparr> = 36 \<and>
   bitsForCharacterMode 16 36 = Num (16 * log 2 36) \<and>
   82.715 < 16 * log 2 36 \<and> 16 * log 2 36 < 82.725"
proof -
  let ?pool = "buildPool cfg"
  let ?n = "int (charPoolSize cfg)"
  let ?acc = "accepted ?n (raws g)"
  have len: "length ?pool = charPoolSize cfg" by (rule buildPool_length)
  have n: "int (length ?pool) = ?n" using len by simp
  have small: "length ?pool \<le> 89" by (simp add: buildPool_def SYMBOLS_def)
  have main: "(nat len \<le> length ?acc \<longrightarrow>
         (\<exists>g'. generateCharacterPassword len cfg g
                 = Return \<lparr>c_password = map (\<lambda>r. ?pool ! nat (uint r mod ?n)) (take (nat len) ?acc),
                            c_bits = Some (Num (real_of_int len * log 2 (real (charPoolSize cfg)))),
                            c_transforms = Some \<lparr>poolSize = charPoolSize cfg, pwd_length = len\<rparr>\<rparr> g'
             \<and> accepted ?n (raws g') = drop (nat len) ?acc
             \<and> choices g' = choices g @ replicate (nat len) (charPoolSize cfg))) \<and>
      (length ?acc < nat len \<longrightarrow> generateCharacterPassword len cfg g = Spinning) \<and>
      (\<forall>res g'. generateCharacterPassword len cfg g = Return res g' \<longrightarrow>
         length (c_password res) = nat len \<and> set (c_password res) \<subseteq> set ?pool) \<and>
      0 < threshold ?n div ?n \<and>
      (\<forall>t. length t = nat len \<and> set t \<subseteq> set ?pool \<longrightarrow>
         card {rs :: u32 list. length rs = nat len
                 \<and> (\<forall>r\<in>set rs. uint r < threshold ?n)
                 \<and> map (\<lambda>r. ?pool ! nat (uint r mod ?n)) rs = t}
           = nat (threshold ?n div ?n) ^ nat len)"
    if h: "1 \<le> len \<and> (lower cfg \<or> upper cfg \<or> digits cfg \<or> symbols cfg)"
  proof (intro conjI impI allI)
    have ne: "?pool \<noteq> []" using h by (auto simp: buildPool_def SYMBOLS_def)
    then have pos: "0 < int (length ?pool)" by simp
    have bits: "bitsForCharacterMode len (int (length ?pool))
        = Num (real_of_int len * log 2 (real (charPoolSize cfg)))"
      using bitsForCharacterMode_value [OF pos, of len] by (simp add: len)
    {
      assume "nat len \<le> length ?acc"
      then have "nat len \<le> length (accepted (int (length ?pool)) (raws g))" unfolding n .
      from drawChars_exact [OF ne this, of "[]"] obtain g' where
        d: "drawChars (nat len) ?pool [] g
              = Return (map (\<lambda>r. ?pool ! nat (uint r mod ?n)) (take (nat len) ?acc)) g'"
        and a: "accepted ?n (raws g') = drop (nat len) ?acc"
        and c: "choices g' = choices g @ replicate (nat len) (charPoolSize cfg)"
        unfolding n len by auto
      have "generateCharacterPassword len cfg g
          = Return \<lparr>c_password = map (\<lambda>r. ?pool ! nat (uint r mod ?n)) (take (nat len) ?acc),
                     c_bits = Some (Num (real_of_int len * log 2 (real (charPoolSize cfg)))),
                     c_transforms = Some \<lparr>poolSize = charPoolSize cfg, pwd_length = len\<rparr>\<rparr> g'"
        using ne d bits by (simp add: generateCharacterPassword_def Let_def len)
      then show "\<exists>g'. generateCharacterPassword len cfg g
                 = Return \<lparr>c_password = map (\<lambda>r. ?pool ! nat (uint r mod ?n)) (take (nat len) ?acc),
                            c_bits = Some (Num (real_of_int len * log 2 (real (charPoolSize cfg)))),
                            c_transforms = Some \<lparr>poolSize = charPoolSize cfg, pwd_length = len\<rparr>\<rparr> g'
             \<and> accepted ?n (raws g') = drop (nat len) ?acc
             \<and> choices g' = choices g @ replicate (nat len) (charPoolSize cfg)"
        using a c by blast
    }
    {
      assume "length ?acc < nat len"
      then have "length (accepted (int (length ?pool)) (raws g)) < nat len" unfolding n .
      from drawChars_starved [OF ne this, of "[]"]
      show "generateCharacterPassword len cfg g = Spinning"
        using ne by (simp add: generateCharacterPassword_def Let_def)
    }
    {
      fix res g'
      assume run: "generateCharacterPassword len cfg g = Return res g'"
      from run ne obtain pwd where
        d: "drawChars (nat len) ?pool [] g = Return pwd g'" and res: "c_password res = pwd"
        by (auto simp: generateCharacterPassword_def Let_def split: outcome.splits)
      from drawChars_Return [OF d] obtain cs where
        "pwd = [] @ cs" "length cs = nat len" "set cs \<subseteq> set ?pool" by blast
      then show "length (c_password res) = nat len" "set (c_password res) \<subseteq> set ?pool"
        using res by simp_all
    }
    have n1: "1 \<le> ?n" using pos n by linarith
    have n2: "?n \<le> maxUint" using small len by (simp add: maxUint_def)
    show "0 < threshold ?n div ?n"
      using threshold_facts [OF n1 n2] n1 by (simp add: pos_imp_zdiv_pos_iff)
    {
      fix t :: string
      assume t: "length t = nat len \<and> set t \<subseteq> set ?pool"
      have "int (length ?pool) \<le> maxUint" using n2 n by simp
      from fibre_count [OF buildPool_distinct ne this, of t] t
      show "card {rs :: u32 list. length rs = nat len
                 \<and> (\<forall>r\<in>set rs. uint r < threshold ?n)
                 \<and> map (\<lambda>r. ?pool ! nat (uint r mod ?n)) rs = t}
           = nat (threshold ?n div ?n) ^ nat len"
        unfolding n by simp
    }
  qed
  have fedc: "\<exists>res g'. generateCharacterPassword len cfg g = Return res g'"
    if h: "1 \<le> len \<and> (lower cfg \<or> upper cfg \<or> digits cfg \<or> symbols cfg) \<and> fed (nat len) g"
  proof -
    have ne: "?pool \<noteq> []" using h by (auto simp: buildPool_def SYMBOLS_def)
    have sm: "length ?pool \<le> 2147483648" using small by simp
    from h have "fed (nat len + 0) g" by simp
    from drawChars_fed [OF ne sm this] obtain out g' where
      "drawChars (nat len) ?pool [] g = Return out g'" by blast
    then show ?thesis using ne by (simp add: generateCharacterPassword_def Let_def)
  qed
  have alpha: "buildPool cfg =
     (if lower cfg then ''abcdefghijklmnopqrstuvwxyz'' else [])
     @ (if upper cfg then ''ABCDEFGHIJKLMNOPQRSTUVWXYZ'' else [])
     @ (if digits cfg then ''0123456789'' else [])
     @ (if symbols cfg then ''!@#$%^&*()-_=+[]{};:,./?<>~'' else [])"
    by (rule buildPool_alphabet)
  have s36: "charPoolSize \<lparr>digits = True, symbols = False, lower = True, upper = False\<rparr> = 36"
    by (simp add: charPoolSize_def)
  have b36: "bitsForCharacterMode 16 36 = Num (16 * log 2 36)"
    using bitsForCharacterMode_value [of 36 16] by simp
  show ?thesis
    using main fedc alpha buildPool_distinct [of cfg] len s36 b36 log2_36_bounds
    by (intro conjI impI) blast+
qed

text \<open>
  C4, witness: sixteen characters from lower-case letters and digits. The raw values
  4294967295 and 4294967292 are discarded, every other one gives the character at its
  residue modulo 36 (7 and 43 both give \<open>h\<close>); a source with two accepted values only
  leaves the loop redrawing; the password of the run is that of \<open>119304647 ^ 16\<close>
  sequences of accepted raw values.
\<close>

theorem generateCharacterPassword_entropy_witness:
  "generateCharacterPassword 16 \<lparr>digits = True, symbols = False, lower = True, upper = False\<rparr>
      \<lparr>raws = [7, 43, 4294967295, 100, 35, 36, 71, 1000, 5, 26, 27, 9, 61, 62, 0, 4294967292,
               18, 99, 3], choices = []\<rparr>
    = Return \<lparr>c_password = ''hh29a92f01jz0as1'', c_bits = Some (Num (16 * log 2 36)),
               c_transforms = Some \<lparr>poolSize = 36, pwd_length = 16\<rparr>\<rparr>
        \<lparr>raws = [3], choices = replicate 16 36\<rparr>
   \<and> accepted 36 [7, 43, 4294967295, 100, 35, 36, 71, 1000, 5, 26, 27, 9, 61, 62, 0, 4294967292,
                  18, 99, 3]
       = [7, 43, 100, 35, 36, 71, 1000, 5, 26, 27, 9, 61, 62, 0, 18, 99, 3]
   \<and> ''hh29a92f01jz0as1''
       = map (\<lambda>r :: u32. ''abcdefghijklmnopqrstuvwxyz0123456789'' ! nat (uint r mod 36))
           [7, 43, 100, 35, 36, 71, 1000, 5, 26, 27, 9, 61, 62, 0, 18, 99]
   \<and> generateCharacterPassword 16 \<lparr>digits = True, symbols = False, lower = True, upper = False\<rparr>
        \<lparr>raws = [7, 4294967295, 43], choices = []\<rparr> = Spinning
   \<and> card {rs :: u32 list. length rs = 16 \<and> (\<forall>r\<in>set rs. uint r < threshold 36)
            \<and> map (\<lambda>r. ''abcdefghijklmnopqrstuvwxyz0123456789'' ! nat (uint r mod 36)) rs
                = ''hh29a92f01jz0as1''}
       = 119304647 ^ 16"
proof -
  let ?cfg = "\<lparr>digits = True, symbols = False, lower = True, upper = False\<rparr>"
  let ?rs = "[7, 43, 4294967295, 100, 35, 36, 71, 1000, 5, 26, 27, 9, 61, 62, 0, 4294967292,
              18, 99, 3 :: u32]"
  let ?g = "\<lparr>raws = ?rs, choices = []\<rparr>"
  let ?g' = "\<lparr>raws = [3 :: u32], choices = replicate 16 36\<rparr>"
  let ?h = "\<lparr>raws = [7, 4294967295, 43 :: u32], choices = []\<rparr>"
  let ?pool = "''abcdefghijklmnopqrstuvwxyz0123456789''"
  let ?res = "\<lparr>c_password = ''hh29a92f01jz0as1'', c_bits = Some (bitsForCharacterMode 16 36),
               c_transforms = Some \<lparr>poolSize = 36, pwd_length = 16\<rparr>\<rparr>"
  have pool: "buildPool ?cfg = ?pool" by (simp add: buildPool_alphabet)
  have size: "charPoolSize ?cfg = 36" by (simp add: charPoolSize_def)
  have hyp: "1 \<le> (16 :: int) \<and> (lower ?cfg \<or> upper ?cfg \<or> digits ?cfg \<or> symbols ?cfg)" by simp
  have d: "drawChars (nat 16) ?pool [] ?g = Return ''hh29a92f01jz0as1'' ?g'" by code_simp
  have run: "generateCharacterPassword 16 ?cfg ?g = Return ?res ?g'"
    unfolding generateCharacterPassword_def Let_def pool using d by simp
  have acc: "accepted 36 ?rs = [7, 43, 100, 35, 36, 71, 1000, 5, 26, 27, 9, 61, 62, 0, 18, 99, 3]"
    by code_simp
  have acch: "accepted 36 [7, 4294967295, 43 :: u32] = [7, 43]" by code_simp
  note inst = generateCharacterPassword_entropy [of 16 ?cfg ?g]
  have i0: "int 36 = 36" "raws ?g = ?rs" "raws ?h = [7, 4294967295, 43]" by simp_all
  have enough: "nat 16 \<le> length (accepted (int (charPoolSize ?cfg)) (raws ?g))"
    unfolding size i0 acc by simp
  from inst hyp enough obtain g'' where
    e: "generateCharacterPassword 16 ?cfg ?g
       = Return \<lparr>c_password =
                    map (\<lambda>r. buildPool ?cfg ! nat (uint r mod int (charPoolSize ?cfg)))
                      (take (nat 16) (accepted (int (charPoolSize ?cfg)) (raws ?g))),
                  c_bits = Some (Num (real_of_int 16 * log 2 (real (charPoolSize ?cfg)))),
                  c_transforms = Some \<lparr>poolSize = charPoolSize ?cfg, pwd_length = 16\<rparr>\<rparr> g''"
    by blast
  have i: "int 36 = 36" "raws ?g = ?rs" by simp_all
  have tk: "take (nat 16) [7, 43, 100, 35, 36, 71, 1000, 5, 26, 27, 9, 61, 62, 0, 18, 99, 3 :: u32]
      = [7, 43, 100, 35, 36, 71, 1000, 5, 26, 27, 9, 61, 62, 0, 18, 99]" by code_simp
  from run e have
    "''hh29a92f01jz0as1'' = map (\<lambda>r. buildPool ?cfg ! nat (uint r mod int (charPoolSize ?cfg)))
                      (take (nat 16) (accepted (int (charPoolSize ?cfg)) (raws ?g)))"
    and "bitsForCharacterMode 16 36 = Num (real_of_int 16 * log 2 (real (charPoolSize ?cfg)))"
    by (simp_all only: outcome.inject char_result.ext_inject option.inject)
  then have pw: "''hh29a92f01jz0as1''
       = map (\<lambda>r :: u32. ?pool ! nat (uint r mod 36))
           [7, 43, 100, 35, 36, 71, 1000, 5, 26, 27, 9, 61, 62, 0, 18, 99]"
    and bt: "bitsForCharacterMode 16 36 = Num (16 * log 2 36)"
    unfolding size pool i acc tk by simp_all
  have few: "length (accepted (int (charPoolSize ?cfg)) (raws ?h)) < nat 16"
    unfolding size i0 acch by simp
  from generateCharacterPassword_entropy [of 16 ?cfg ?h] hyp few
  have spin: "generateCharacterPassword 16 ?cfg ?h = Spinning" by blast
  have t: "length ''hh29a92f01jz0as1'' = nat 16 \<and> set ''hh29a92f01jz0as1'' \<subseteq> set (buildPool ?cfg)"
    unfolding pool by simp
  from inst hyp t have
    "card {rs :: u32 list. length rs = nat 16
             \<and> (\<forall>r\<in>set rs. uint r < threshold (int (charPoolSize ?cfg)))
             \<and> map (\<lambda>r. buildPool ?cfg ! nat (uint r mod int (charPoolSize ?cfg))) rs
                 = ''hh29a92f01jz0as1''}
       = nat (threshold (int (charPoolSize ?cfg)) div int (charPoolSize ?cfg)) ^ nat 16"
    by blast
  moreover have "nat (threshold 36 div 36) = 119304647" by (simp add: threshold_def maxUint_def)
  moreover have "nat 16 = 16" "int 36 = 36" by simp_all
  ultimately have fib: "card {rs :: u32 list. length rs = 16
            \<and> (\<forall>r\<in>set rs. uint r < threshold 36)
            \<and> map (\<lambda>r. ?pool ! nat (uint r mod 36)) rs = ''hh29a92f01jz0as1''}
       = 119304647 ^ 16"
    unfolding pool size by (simp only:)
  have run': "generateCharacterPassword 16 ?cfg ?g
      = Return \<lparr>c_password = ''hh29a92f01jz0as1'', c_bits = Some (Num (16 * log 2 36)),
               c_transforms = Some \<lparr>poolSize = 36, pwd_length = 16\<rparr>\<rparr> ?g'"
    using run unfolding bt .
  show ?thesis using run' acc pw spin fib by (intro conjI)
qed

text \<open>
  C4, counterexample to the figure of the claim: the bits reported for \<open>length = 16\<close> and
  a pool of 36 are above 82.715, not 82.68.
\<close>

theorem generateCharacterPassword_example_counterexample:
  "generateCharacterPassword 16 \<lparr>digits = True, symbols = False, lower = True, upper = False\<rparr>
      \<lparr>raws = [7, 43, 4294967295, 100, 35, 36, 71, 1000, 5, 26, 27, 9, 61, 62, 0, 4294967292,
               18, 99, 3], choices = []\<rparr>
    = Return \<lparr>c_password = ''hh29a92f01jz0as1'', c_bits = Some (Num (16 * log 2 36)),
               c_transforms = Some \<lparr>poolSize = 36, pwd_length = 16\<rparr>\<rparr>
        \<lparr>raws = [3], choices = replicate 16 36\<rparr>
   \<and> 82.68 + 0.035 < 16 * log 2 36"
proof -
  let ?cfg = "\<lparr>digits = True, symbols = False, lower = True, upper = False\<rparr>"
  let ?g = "\<lparr>raws = [7, 43, 4294967295, 100, 35, 36, 71, 1000, 5, 26, 27, 9, 61, 62, 0, 4294967292,
              18, 99, 3 :: u32], choices = []\<rparr>"
  let ?g' = "\<lparr>raws = [3 :: u32], choices = replicate 16 36\<rparr>"
  have pool: "buildPool ?cfg = ''abcdefghijklmnopqrstuvwxyz0123456789''"
    by (simp add: buildPool_alphabet)
  have d: "drawChars (nat 16) ''abcdefghijklmnopqrstuvwxyz0123456789'' [] ?g
      = Return ''hh29a92f01jz0as1'' ?g'" by code_simp
  have b: "bitsForCharacterMode 16 36 = Num (16 * log 2 36)"
    using bitsForCharacterMode_value [of 36 16] by simp
  have run: "generateCharacterPassword 16 ?cfg ?g
      = Return \<lparr>c_password = ''hh29a92f01jz0as1'', c_bits = Some (Num (16 * log 2 36)),
               c_transforms = Some \<lparr>poolSize = 36, pwd_length = 16\<rparr>\<rparr> ?g'"
    unfolding generateCharacterPassword_def Let_def pool using d b by simp
  have "82.68 + 0.035 < 16 * log 2 36" using log2_36_bounds(1) by simp
  then show ?thesis using run by simp
qed

section \<open>Crack time in log10 space\<close>

lemma tol_value: "0 < tol" "1000000000 * tol = 1"
  by (simp_all add: tol_def)

lemma isNum_iff: "isNum x = (\<exists>r. x = Num r)"
  by (cases x) simp_all

lemma js_sub_Num: "js_sub x y = Num r \<Longrightarrow> \<exists>a b. x = Num a \<and> y = Num b \<and> r = a - b"
  by (cases x; cases y) (simp_all add: js_sub_def)

lemma reals_doubles: "doubles reals isNum numValue"
  unfolding doubles_def
proof (intro conjI allI impI)
  fix k :: int
  show "isNum (lit reals k)" "numValue (lit reals k) = real_of_int k"
    by (simp_all add: reals_def of_integer_def)
next
  fix x y assume "isNum x \<and> isNum y"
  then obtain a b where "x = Num a" "y = Num b" by (auto simp: isNum_iff)
  then show "lt reals x y = (numValue x < numValue y)" "le reals x y = (numValue x \<le> numValue y)"
    by (auto simp: reals_def)
next
  fix x assume "isNum x"
  then obtain a where "x = Num a" by (auto simp: isNum_iff)
  then show "isNum (flr reals x)" "numValue (flr reals x) = of_int \<lfloor>numValue x\<rfloor>"
    by (simp_all add: reals_def)
next
  fix x y assume f: "isNum (sub reals x y)"
  then obtain r where "js_sub x y = Num r" by (auto simp: isNum_iff reals_def)
  from js_sub_Num [OF this] obtain a b where ab: "x = Num a" "y = Num b" "r = a - b" by blast
  then show "isNum x" "isNum y" by simp_all
  assume "0 < numValue (sub reals x y)"
  then show "numValue y < numValue x" using ab by (simp add: reals_def js_sub_def)
next
  fix x y assume "isNum x \<and> isNum y \<and> \<bar>numValue x - numValue y\<bar> \<le> 10 ^ 6"
  then obtain a b where "x = Num a" "y = Num b" by (auto simp: isNum_iff)
  then show "isNum (sub reals x y)"
    "\<bar>numValue (sub reals x y) - (numValue x - numValue y)\<bar> \<le> tol"
    using tol_value(1) by (simp_all add: reals_def js_sub_def)
next
  fix x assume "isNum x \<and> 1 \<le> numValue x"
  then obtain a where "x = Num a" by (auto simp: isNum_iff)
  then show "isNum (sub reals x (flr reals x))"
    "numValue (sub reals x (flr reals x)) = numValue x - of_int \<lfloor>numValue x\<rfloor>"
    by (simp_all add: reals_def js_sub_def)
next
  fix x y assume "isNum x \<and> isNum y \<and> \<bar>numValue x * numValue y\<bar> \<le> 10 ^ 6"
  then obtain a b where "x = Num a" "y = Num b" by (auto simp: isNum_iff)
  then show "isNum (mul reals x y)"
    "\<bar>numValue (mul reals x y) - numValue x * numValue y\<bar> \<le> tol"
    using tol_value(1) by (simp_all add: reals_def)
next
  fix x assume "isNum x \<and> 0 < numValue x"
  then obtain a where "x = Num a" "0 < a" by (auto simp: isNum_iff)
  then show "isNum (log10 reals x)"
    "\<bar>numValue (log10 reals x) - log 10 (numValue x)\<bar> \<le> tol"
    using tol_value(1) by (simp_all add: reals_def Math_log10_def)
next
  fix x assume "isNum x \<and> 0 \<le> numValue x \<and> numValue x < 1"
  then obtain a where "x = Num a" by (auto simp: isNum_iff)
  then show "isNum (pow10 reals x)"
    "\<bar>numValue (pow10 reals x) - 10 powr numValue x\<bar> \<le> tol"
    using tol_value(1) by (simp_all add: reals_def)
qed

lemma doublesD:
  assumes "doubles A fin val"
  shows "\<bar>k\<bar> \<le> 2 ^ 53 \<Longrightarrow> fin (lit A k) \<and> val (lit A k) = real_of_int k"
    and "fin x \<Longrightarrow> fin y \<Longrightarrow> lt A x y = (val x < val y) \<and> le A x y = (val x \<le> val y)"
    and "fin x \<Longrightarrow> fin (flr A x) \<and> val (flr A x) = of_int \<lfloor>val x\<rfloor>"
    and "fin (sub A x y) \<Longrightarrow> fin x \<and> fin y \<and> (0 < val (sub A x y) \<longrightarrow> val y < val x)"
    and "fin x \<Longrightarrow> fin y \<Longrightarrow> \<bar>val x - val y\<bar> \<le> 10 ^ 6 \<Longrightarrow>
           fin (sub A x y) \<and> \<bar>val (sub A x y) - (val x - val y)\<bar> \<le> tol"
    and "fin x \<Longrightarrow> 1 \<le> val x \<Longrightarrow>
           fin (sub A x (flr A x)) \<and> val (sub A x (flr A x)) = val x - of_int \<lfloor>val x\<rfloor>"
    and "fin x \<Longrightarrow> fin y \<Longrightarrow> \<bar>val x * val y\<bar> \<le> 10 ^ 6 \<Longrightarrow>
           fin (mul A x y) \<and> \<bar>val (mul A x y) - val x * val y\<bar> \<le> tol"
    and "fin x \<Longrightarrow> 0 < val x \<Longrightarrow>
           fin (log10 A x) \<and> \<bar>val (log10 A x) - log 10 (val x)\<bar> \<le> tol"
    and "fin x \<Longrightarrow> 0 \<le> val x \<Longrightarrow> val x < 1 \<Longrightarrow>
           fin (pow10 A x) \<and> \<bar>val (pow10 A x) - 10 powr val x\<bar> \<le> tol"
proof -
  note a = assms [unfolded doubles_def]
  note c1 = a [THEN conjunct1] and r1 = a [THEN conjunct2]
  note c2 = r1 [THEN conjunct1] and r2 = r1 [THEN conjunct2]
  note c3 = r2 [THEN conjunct1] and r3 = r2 [THEN conjunct2]
  note c4 = r3 [THEN conjunct1] and r4 = r3 [THEN conjunct2]
  note c5 = r4 [THEN conjunct1] and r5 = r4 [THEN conjunct2]
  note c6 = r5 [THEN conjunct1] and r6 = r5 [THEN conjunct2]
  note c7 = r6 [THEN conjunct1] and r7 = r6 [THEN conjunct2]
  note c8 = r7 [THEN conjunct1] and c9 = r7 [THEN conjunct2]
  show "\<bar>k\<bar> \<le> 2 ^ 53 \<Longrightarrow> fin (lit A k) \<and> val (lit A k) = real_of_int k"
    using c1 by blast
  show "fin x \<Longrightarrow> fin y \<Longrightarrow> lt A x y = (val x < val y) \<and> le A x y = (val x \<le> val y)"
    using c2 by blast
  show "fin x \<Longrightarrow> fin (flr A x) \<and> val (flr A x) = of_int \<lfloor>val x\<rfloor>"
    using c3 by blast
  show "fin (sub A x y) \<Longrightarrow> fin x \<and> fin y \<and> (0 < val (sub A x y) \<longrightarrow> val y < val x)"
    using c4 by blast
  show "fin x \<Longrightarrow> fin y \<Longrightarrow> \<bar>val x - val y\<bar> \<le> 10 ^ 6 \<Longrightarrow>
           fin (sub A x y) \<and> \<bar>val (sub A x y) - (val x - val y)\<bar> \<le> tol"
    using c5 by blast
  show "fin x \<Longrightarrow> 1 \<le> val x \<Longrightarrow>
           fin (sub A x (flr A x)) \<and> val (sub A x (flr A x)) = val x - of_int \<lfloor>val x\<rfloor>"
    using c6 by blast
  show "fin x \<Longrightarrow> fin y \<Longrightarrow> \<bar>val x * val y\<bar> \<le> 10 ^ 6 \<Longrightarrow>
           fin (mul A x y) \<and> \<bar>val (mul A x y) - val x * val y\<bar> \<le> tol"
    using c7 by blast
  show "fin x \<Longrightarrow> 0 < val x \<Longrightarrow>
           fin (log10 A x) \<and> \<bar>val (log10 A x) - log 10 (val x)\<bar> \<le> tol"
    using c8 by blast
  show "fin x \<Longrightarrow> 0 \<le> val x \<Longrightarrow> val x < 1 \<Longrightarrow>
           fin (pow10 A x) \<and> \<bar>val (pow10 A x) - 10 powr val x\<bar> \<le> tol"
    using c9 by blast
qed

lemma log10_year: "7 < log 10 31557600" "log 10 31557600 < 7.5"
proof -
  have "real 7 < real 1 * log 10 31557600" by (rule log_above_ratio) simp_all
  then show "7 < log 10 31557600" by simp
  have "real 2 * log 10 31557600 < real 15" by (rule log_below_ratio) simp_all
  then show "log 10 31557600 < 7.5" by simp
qed

lemma log10_two: "0 < log 10 2" "log 10 2 < 1"
  by simp_all

lemma years_value:
  assumes "0 < r"
  shows "10 powr (b * log 10 2 - log 10 r - log 10 31557600) = 2 powr b / r / 31557600"
proof -
  have "10 powr (log 10 2 * b) = (10 powr log 10 2) powr b" by (simp only: powr_powr)
  also have "10 powr log 10 2 = (2 :: real)" by (simp add: powr_log_cancel)
  finally have "10 powr (b * log 10 2) = 2 powr b" by (simp add: mult.commute)
  moreover have "10 powr (log 10 r) = r" using assms by (simp add: powr_log_cancel)
  moreover have "10 powr (log 10 31557600) = (31557600 :: real)" by (simp add: powr_log_cancel)
  ultimately show ?thesis by (simp add: powr_diff)
qed

lemma scientific_branch:
  assumes D: "doubles A fin val"
    and b: "fin b" "0 < val b"
    and L: "fin (log10Years A b r)" "6 \<le> val (log10Years A b r)"
  shows "formatCrackTimeFromBits A b r
           = \<lparr>label = Scientific (pow10 A (sub A (log10Years A b r) (flr A (log10Years A b r))))
                        (flr A (log10Years A b r)),
              seconds = None\<rparr>"
    and "fin (flr A (log10Years A b r))"
    and "val (flr A (log10Years A b r)) = of_int \<lfloor>val (log10Years A b r)\<rfloor>"
    and "fin (sub A (log10Years A b r) (flr A (log10Years A b r)))"
    and "val (sub A (log10Years A b r) (flr A (log10Years A b r)))
           = val (log10Years A b r) - of_int \<lfloor>val (log10Years A b r)\<rfloor>"
    and "fin (pow10 A (sub A (log10Years A b r) (flr A (log10Years A b r))))"
    and "\<bar>val (pow10 A (sub A (log10Years A b r) (flr A (log10Years A b r))))
           - 10 powr (val (log10Years A b r) - of_int \<lfloor>val (log10Years A b r)\<rfloor>)\<bar> \<le> tol"
proof -
  note d = doublesD [OF D]
  define S where "S = sub A (mul A b (log10 A (lit A 2))) (log10 A r)"
  define c where "c = log10 A (lit A 31557600)"
  define LY where "LY = log10Years A b r"
  have LY: "LY = sub A S c" by (simp add: LY_def S_def c_def log10Years_def)
  have fLY: "fin LY" and vLY: "6 \<le> val LY" using L by (simp_all add: LY_def)
  have z: "fin (lit A 0)" "val (lit A 0) = 0" using d(1) [of 0] by simp_all
  have six: "fin (lit A 6)" "val (lit A 6) = 6" using d(1) [of 6] by simp_all
  have secs: "fin (lit A 31557600)" "val (lit A 31557600) = 31557600"
    using d(1) [of 31557600] by simp_all
  have g1: "\<not> le A b (lit A 0)" using d(2) [OF b(1) z(1)] b(2) z(2) by simp
  have "fin (sub A S c)" "0 < val (sub A S c)" using fLY vLY unfolding LY by simp_all
  then have sc: "fin S" "fin c" "val c < val S"
    using d(4) [of S c] by blast+
  have "\<bar>val c - log 10 31557600\<bar> \<le> tol"
    using d(8) [OF secs(1)] secs(2) by (simp add: c_def)
  then have "0 < val c" using log10_year(1) tol_value by linarith
  then have "0 < val S" using sc(3) by linarith
  then have g2: "\<not> lt A S (lit A 0)" using d(2) [OF sc(1) z(1)] z(2) by simp
  have g3: "\<not> lt A LY (lit A 6)" using d(2) [OF fLY six(1)] six(2) vLY by simp
  have g2': "\<not> lt A (sub A (mul A b (log10 A (lit A 2))) (log10 A r)) (lit A 0)"
    using g2 unfolding S_def .
  have g3': "\<not> lt A (sub A (sub A (mul A b (log10 A (lit A 2))) (log10 A r))
                   (log10 A (lit A 31557600))) (lit A 6)"
    using g3 unfolding LY_def log10Years_def .
  show "formatCrackTimeFromBits A b r
           = \<lparr>label = Scientific (pow10 A (sub A (log10Years A b r) (flr A (log10Years A b r))))
                        (flr A (log10Years A b r)),
              seconds = None\<rparr>"
    unfolding formatCrackTimeFromBits_def Let_def log10Years_def
    by (simp only: g1 g2' g3' if_False)
  show "fin (flr A (log10Years A b r))"
    "val (flr A (log10Years A b r)) = of_int \<lfloor>val (log10Years A b r)\<rfloor>"
    using d(3) [OF fLY] by (simp_all add: LY_def)
  have one: "1 \<le> val LY" using vLY by linarith
  have fr: "fin (sub A LY (flr A LY))" "val (sub A LY (flr A LY)) = val LY - of_int \<lfloor>val LY\<rfloor>"
    using d(6) [OF fLY one] by simp_all
  then show "fin (sub A (log10Years A b r) (flr A (log10Years A b r)))"
    "val (sub A (log10Years A b r) (flr A (log10Years A b r)))
           = val (log10Years A b r) - of_int \<lfloor>val (log10Years A b r)\<rfloor>"
    by (simp_all add: LY_def)
  have "0 \<le> val (sub A LY (flr A LY))" "val (sub A LY (flr A LY)) < 1"
    unfolding fr(2) by linarith+
  from d(9) [OF fr(1) this]
  show "fin (pow10 A (sub A (log10Years A b r) (flr A (log10Years A b r))))"
    "\<bar>val (pow10 A (sub A (log10Years A b r) (flr A (log10Years A b r))))
           - 10 powr (val (log10Years A b r) - of_int \<lfloor>val (log10Years A b r)\<rfloor>)\<bar> \<le> tol"
    unfolding fr(2) by (simp_all add: LY_def)
qed

lemma root_bound: "10 powr (1 / 10 ^ 6) \<le> (1 + 1 / 10 ^ 5 :: real)"
proof -
  define x :: real where "x = 1 / 10 ^ 5"
  define n :: nat where "n = 10 ^ 6"
  have x: "0 < x" "real n * x = 10" by (simp_all add: x_def n_def)
  have n: "0 < real n" by (simp add: n_def)
  have "1 + real n * x \<le> (1 + x) ^ n" by (rule Bernoulli_inequality) (use x(1) in simp)
  then have "10 \<le> (1 + x) ^ n" using x(2) by simp
  then have "10 powr (1 / real n) \<le> ((1 + x) ^ n) powr (1 / real n)"
    by (intro powr_mono2) simp_all
  also have "(1 + x) ^ n = (1 + x) powr real n" using x(1) by (simp add: powr_realpow)
  also have "((1 + x) powr real n) powr (1 / real n) = (1 + x) powr (real n * (1 / real n))"
    by (simp only: powr_powr)
  also have "real n * (1 / real n) = 1" using n by simp
  also have "(1 + x) powr 1 = 1 + x" using x(1) by simp
  finally have "10 powr (1 / real n) \<le> 1 + x" .
  moreover have "real n = 10 ^ 6" by (simp add: n_def)
  ultimately show ?thesis by (simp only: x_def)
qed

lemma near_pow:
  fixes d :: real
  assumes "\<bar>d\<bar> \<le> 1 / 10 ^ 6"
  shows "1 - 1 / 10 ^ 5 \<le> 10 powr d" "10 powr d \<le> 1 + 1 / 10 ^ 5"
proof -
  define u :: real where "u = 10 powr (1 / 10 ^ 6)"
  have u: "u \<le> 1 + 1 / 10 ^ 5" "0 < u" using root_bound by (simp_all add: u_def)
  from assms have d: "d \<le> 1 / 10 ^ 6" "- (1 / 10 ^ 6) \<le> d" by (simp_all add: abs_le_iff)
  have "10 powr d \<le> u" unfolding u_def using d(1) by (intro powr_mono) simp_all
  then show "10 powr d \<le> 1 + 1 / 10 ^ 5" using u(1) by linarith
  have "10 powr (- (1 / 10 ^ 6)) \<le> 10 powr d" using d(2) by (intro powr_mono) simp_all
  moreover have "10 powr (- (1 / 10 ^ 6)) = 1 / u" by (simp add: u_def powr_minus_divide)
  moreover have "1 - 1 / 10 ^ 5 \<le> 1 / u"
  proof -
    have "(1 - 1 / 10 ^ 5) * u \<le> (1 - 1 / 10 ^ 5) * (1 + 1 / 10 ^ 5)"
      using u(1) by (intro mult_left_mono) simp_all
    also have "\<dots> \<le> (1 :: real)" by simp
    finally show ?thesis using u(2) by (simp add: pos_le_divide_eq)
  qed
  ultimately show "1 - 1 / 10 ^ 5 \<le> 10 powr d" by linarith
qed

lemma X_value:
  "256 * log 10 2 - log 10 31557600 = log 10 (2 ^ 256 / 31557600)"
proof -
  have "10 powr (256 * log 10 2 - log 10 1 - log 10 31557600) = 2 powr 256 / 1 / 31557600"
    by (rule years_value) simp
  then have "10 powr (256 * log 10 2 - log 10 31557600) = 2 ^ 256 / 31557600" by simp
  then have "log 10 (10 powr (256 * log 10 2 - log 10 31557600)) = log 10 (2 ^ 256 / 31557600)"
    by (rule arg_cong)
  then show ?thesis by simp
qed

lemma X_bounds:
  "69.5 < 256 * log 10 2 - log 10 31557600" "256 * log 10 2 - log 10 31557600 < 69.6"
proof -
  have "real 139 < real 2 * log 10 (2 ^ 256 / 31557600)"
    by (rule log_above_ratio) (simp_all add: power_divide)
  then show "69.5 < 256 * log 10 2 - log 10 31557600" unfolding X_value by simp
  have "real 5 * log 10 (2 ^ 256 / 31557600) < real 348"
    by (rule log_below_ratio) (simp_all add: power_divide)
  then show "256 * log 10 2 - log 10 31557600 < 69.6" unfolding X_value by simp
qed

lemma mantissa_256:
  fixes v :: real
  assumes "\<bar>v - (256 * log 10 2 - log 10 31557600)\<bar> \<le> 1 / 10 ^ 6"
  shows "3.668 < 10 powr (v - 69)" "10 powr (v - 69) < 3.671"
proof -
  define X :: real where "X = 256 * log 10 2 - log 10 31557600"
  define Y0 :: real where "Y0 = 2 ^ 256 / (31557600 * 10 ^ 69)"
  have Y0: "3.669 < Y0" "Y0 < 3.67" by (simp_all add: Y0_def)
  have "10 powr X = 2 ^ 256 / 31557600"
    using years_value [of 1 256] by (simp add: X_def)
  moreover have "10 powr (X - 69) = 10 powr X / 10 powr 69" by (rule powr_diff)
  ultimately have base: "10 powr (X - 69) = Y0" by (simp add: Y0_def)
  have "10 powr (v - 69) = 10 powr ((X - 69) + (v - X))" by simp
  also have "\<dots> = 10 powr (X - 69) * 10 powr (v - X)" by (rule powr_add)
  finally have split: "10 powr (v - 69) = Y0 * 10 powr (v - X)" unfolding base .
  from assms have "\<bar>v - X\<bar> \<le> 1 / 10 ^ 6" by (simp add: X_def)
  from near_pow [OF this] have E: "1 - 1 / 10 ^ 5 \<le> 10 powr (v - X)" "10 powr (v - X) \<le> 1 + 1 / 10 ^ 5"
    by simp_all
  have "Y0 * 10 powr (v - X) \<le> Y0 * (1 + 1 / 10 ^ 5)"
    using E(2) Y0(1) by (intro mult_left_mono) simp_all
  also have "\<dots> < 3.67 * (1 + 1 / 10 ^ 5)" using Y0(2) by simp
  also have "\<dots> < (3.671 :: real)" by simp
  finally show "10 powr (v - 69) < 3.671" unfolding split .
  have "(3.668 :: real) < 3.669 * (1 - 1 / 10 ^ 5)" by simp
  also have "\<dots> < Y0 * (1 - 1 / 10 ^ 5)" using Y0(1) by simp
  also have "\<dots> \<le> Y0 * 10 powr (v - X)"
    using E(1) Y0(1) by (intro mult_left_mono) simp_all
  finally show "3.668 < 10 powr (v - 69)" unfolding split .
qed

lemma log10Years_accuracy:
  assumes D: "doubles A fin val"
    and b: "fin b" "0 \<le> val b" "val b \<le> 10 ^ 5"
    and r: "fin r" "1 / 10 ^ 300 \<le> val r" "val r \<le> 10 ^ 300"
  shows "fin (log10Years A b r)"
    and "\<bar>val (log10Years A b r) - (val b * log 10 2 - log 10 (val r) - log 10 31557600)\<bar>
           \<le> (val b + 5) * tol"
proof -
  note d = doublesD [OF D]
  have m: "(10 :: real) ^ 6 = 1000000" "(10 :: real) ^ 5 = 100000" by simp_all
  have two: "fin (lit A 2)" "val (lit A 2) = 2" using d(1) [of 2] by simp_all
  have secs: "fin (lit A 31557600)" "val (lit A 31557600) = 31557600"
    using d(1) [of 31557600] by simp_all
  define a where "a = log10 A (lit A 2)"
  define G where "G = mul A b a"
  define l where "l = log10 A r"
  define S where "S = sub A G l"
  define c where "c = log10 A (lit A 31557600)"
  define LY where "LY = sub A S c"
  define P where "P = val b * val a"
  define Q where "Q = val b * log 10 2"
  define T where "T = val b * tol"
  have rpos: "0 < val r" using r(2) by (rule less_le_trans [rotated]) simp
  have a: "fin a" "\<bar>val a - log 10 2\<bar> \<le> tol"
    using d(8) [OF two(1)] two(2) by (simp_all add: a_def)
  have Q: "0 \<le> Q" "Q \<le> val b"
  proof -
    show "0 \<le> Q" unfolding Q_def using b(2) by simp
    have "val b * log 10 2 \<le> val b * 1" using b(2) by (intro mult_left_mono) simp_all
    then show "Q \<le> val b" by (simp add: Q_def)
  qed
  have T: "0 \<le> T" "T \<le> 100000 * tol"
  proof -
    show "0 \<le> T" unfolding T_def using b(2) tol_value(1) by simp
    have "val b * tol \<le> 100000 * tol" using b(3) tol_value(1) unfolding m by (intro mult_right_mono) simp_all
    then show "T \<le> 100000 * tol" by (simp add: T_def)
  qed
  have PQ: "\<bar>P - Q\<bar> \<le> T"
  proof -
    have "P - Q = val b * (val a - log 10 2)" by (simp add: P_def Q_def algebra_simps)
    then have "\<bar>P - Q\<bar> = val b * \<bar>val a - log 10 2\<bar>" using b(2) by (simp add: abs_mult)
    also have "\<dots> \<le> val b * tol" using a(2) b(2) by (intro mult_left_mono)
    finally show ?thesis by (simp add: T_def)
  qed
  have "\<bar>P\<bar> \<le> 1000000" using PQ Q T b(3) tol_value unfolding m by linarith
  then have "\<bar>val b * val a\<bar> \<le> 10 ^ 6" unfolding m P_def .
  from d(7) [OF b(1) a(1) this] have G: "fin G" "\<bar>val G - P\<bar> \<le> tol"
    by (simp_all add: G_def P_def)
  have l: "fin l" "\<bar>val l - log 10 (val r)\<bar> \<le> tol"
    using d(8) [OF r(1) rpos] by (simp_all add: l_def)
  have "log 10 (1 / 10 ^ 300) \<le> log 10 (val r)" "log 10 (val r) \<le> log 10 (10 ^ 300)"
    using r(2,3) rpos by (simp_all only: log_le_cancel_iff) simp_all
  moreover have "log 10 (1 / 10 ^ 300) = - 300" "log 10 (10 ^ 300) = 300"
    using log_pow_cancel [of 10 300] by (simp_all add: log_divide)
  ultimately have lr: "- 300 \<le> log 10 (val r)" "log 10 (val r) \<le> 300" by simp_all
  have "\<bar>val G - val l\<bar> \<le> 1000000"
    using G(2) l(2) lr PQ Q T b(3) tol_value unfolding m by linarith
  then have "\<bar>val G - val l\<bar> \<le> 10 ^ 6" unfolding m .
  from d(5) [OF G(1) l(1) this] have S: "fin S" "\<bar>val S - (val G - val l)\<bar> \<le> tol"
    by (simp_all add: S_def)
  have c: "fin c" "\<bar>val c - log 10 31557600\<bar> \<le> tol"
    using d(8) [OF secs(1)] secs(2) by (simp_all add: c_def)
  have "\<bar>val S - val c\<bar> \<le> 1000000"
    using S(2) G(2) l(2) lr c(2) PQ Q T b(3) log10_year tol_value unfolding m by linarith
  then have "\<bar>val S - val c\<bar> \<le> 10 ^ 6" unfolding m .
  from d(5) [OF S(1) c(1) this] have L: "fin LY" "\<bar>val LY - (val S - val c)\<bar> \<le> tol"
    by (simp_all add: LY_def)
  have eq: "log10Years A b r = LY"
    by (simp add: log10Years_def LY_def S_def G_def a_def l_def c_def)
  show "fin (log10Years A b r)" unfolding eq by (rule L(1))
  have "\<bar>val LY - (Q - log 10 (val r) - log 10 31557600)\<bar> \<le> T + 5 * tol"
    using L(2) S(2) G(2) l(2) c(2) PQ by linarith
  moreover have "T + 5 * tol = (val b + 5) * tol" by (simp add: T_def algebra_simps)
  ultimately show "\<bar>val (log10Years A b r)
       - (val b * log 10 2 - log 10 (val r) - log 10 31557600)\<bar> \<le> (val b + 5) * tol"
    unfolding eq Q_def by simp
qed

lemma example_256:
  assumes D: "doubles A fin val"
  shows "fin (log10Years A (lit A 256) (lit A 1))"
    and "\<bar>val (log10Years A (lit A 256) (lit A 1)) - (256 * log 10 2 - log 10 31557600)\<bar>
           \<le> 1 / 10 ^ 6"
proof -
  note d = doublesD [OF D]
  have b: "fin (lit A 256)" "val (lit A 256) = 256" using d(1) [of 256] by simp_all
  have one: "fin (lit A 1)" "val (lit A 1) = 1" using d(1) [of 1] by simp_all
  have h: "0 \<le> val (lit A 256)" "val (lit A 256) \<le> 10 ^ 5"
    "1 / 10 ^ 300 \<le> val (lit A 1)" "val (lit A 1) \<le> 10 ^ 300"
    unfolding b(2) one(2) by simp_all
  note acc = log10Years_accuracy [OF D b(1) h(1,2) one(1) h(3,4)]
  show "fin (log10Years A (lit A 256) (lit A 1))" by (rule acc(1))
  have "\<bar>val (log10Years A (lit A 256) (lit A 1)) - (256 * log 10 2 - log 10 31557600)\<bar>
      \<le> 261 * tol"
    using acc(2) unfolding b(2) one(2) by simp
  then have "\<bar>val (log10Years A (lit A 256) (lit A 1)) - (256 * log 10 2 - log 10 31557600)\<bar>
      \<le> 1 / 1000000" using tol_value by linarith
  then show "\<bar>val (log10Years A (lit A 256) (lit A 1)) - (256 * log 10 2 - log 10 31557600)\<bar>
           \<le> 1 / 10 ^ 6" by simp
qed

lemma zero_bits:
  assumes D: "doubles A fin val"
    and r: "fin r" "1 / 10 ^ 300 \<le> val r" "val r \<le> 1 / 10 ^ 14"
  shows "fin (log10Years A (lit A 0) r)" "6 \<le> val (log10Years A (lit A 0) r)"
proof -
  note d = doublesD [OF D]
  have z: "fin (lit A 0)" "val (lit A 0) = 0" using d(1) [of 0] by simp_all
  have rpos: "0 < val r" using r(2) by (rule less_le_trans [rotated]) simp
  have "val r \<le> 1" using r(3) by (rule order_trans) simp
  then have r3: "val r \<le> 10 ^ 300" by (rule order_trans) simp
  have h: "0 \<le> val (lit A 0)" "val (lit A 0) \<le> 10 ^ 5" unfolding z(2) by simp_all
  note acc = log10Years_accuracy [OF D z(1) h r(1,2) r3]
  show "fin (log10Years A (lit A 0) r)" by (rule acc(1))
  have "log 10 (val r) \<le> log 10 (1 / 10 ^ 14)"
    using r(3) rpos by (subst log_le_cancel_iff) simp_all
  moreover have "log 10 (1 / 10 ^ 14) = - 14"
    using log_pow_cancel [of 10 14] by (simp add: log_divide)
  ultimately have lr: "log 10 (val r) \<le> - 14" by simp
  have "\<bar>val (log10Years A (lit A 0) r) - (- log 10 (val r) - log 10 31557600)\<bar> \<le> 5 * tol"
    using acc(2) unfolding z(2) by simp
  then show "6 \<le> val (log10Years A (lit A 0) r)" using lr log10_year(2) tol_value by linarith
qed

lemma zero_bits_label:
  assumes D: "doubles A fin val"
  shows "formatCrackTimeFromBits A (lit A 0) r = \<lparr>label = LessThanSecond, seconds = Some (lit A 0)\<rparr>"
proof -
  note d = doublesD [OF D]
  have z: "fin (lit A 0)" using d(1) [of 0] by simp
  have "le A (lit A 0) (lit A 0)" using d(2) [OF z z] by simp
  then show ?thesis by (simp add: formatCrackTimeFromBits_def)
qed

lemma log10Years_reals:
  "0 < r \<Longrightarrow>
     log10Years reals (Num b) (Num r) = Num (b * log 10 2 - log 10 r - log 10 31557600)"
  by (simp add: log10Years_def reals_def of_integer_def Math_log10_def js_sub_def)

lemma margin_branch:
  assumes D: "doubles A fin val"
    and b: "fin b" "0 < val b" "val b \<le> 10 ^ 5"
    and r: "fin r" "1 / 10 ^ 300 \<le> val r" "val r \<le> 10 ^ 300"
    and X: "6 + 1 / 1000 \<le> val b * log 10 2 - log 10 (val r) - log 10 31557600"
  shows "fin (log10Years A b r)" "6 \<le> val (log10Years A b r)"
proof -
  have b0: "0 \<le> val b" using b(2) by simp
  note acc = log10Years_accuracy [OF D b(1) b0 b(3) r]
  show "fin (log10Years A b r)" by (rule acc(1))
  have "val b + 5 \<le> 100005" using b(3) by simp
  then have "(val b + 5) * tol \<le> 100005 * tol"
    using tol_value(1) by (intro mult_right_mono) simp_all
  then have "(val b + 5) * tol \<le> 1 / 1000" using tol_value by linarith
  then show "6 \<le> val (log10Years A b r)" using acc(2) X by linarith
qed

lemma lowLogs_doubles: "doubles lowLogs isNum numValue"
  unfolding doubles_def
proof (intro conjI allI impI)
  fix k :: int
  show "isNum (lit lowLogs k)" "numValue (lit lowLogs k) = real_of_int k"
    by (simp_all add: lowLogs_def reals_def of_integer_def)
next
  fix x y assume "isNum x \<and> isNum y"
  then obtain a b where "x = Num a" "y = Num b" by (auto simp: isNum_iff)
  then show "lt lowLogs x y = (numValue x < numValue y)"
    "le lowLogs x y = (numValue x \<le> numValue y)"
    by (auto simp: lowLogs_def reals_def)
next
  fix x assume "isNum x"
  then obtain a where "x = Num a" by (auto simp: isNum_iff)
  then show "isNum (flr lowLogs x)" "numValue (flr lowLogs x) = of_int \<lfloor>numValue x\<rfloor>"
    by (simp_all add: lowLogs_def reals_def)
next
  fix x y assume f: "isNum (sub lowLogs x y)"
  then obtain r where "js_sub x y = Num r" by (auto simp: isNum_iff lowLogs_def reals_def)
  from js_sub_Num [OF this] obtain a b where ab: "x = Num a" "y = Num b" "r = a - b" by blast
  then show "isNum x" "isNum y" by simp_all
  assume "0 < numValue (sub lowLogs x y)"
  then show "numValue y < numValue x" using ab by (simp add: lowLogs_def reals_def js_sub_def)
next
  fix x y assume "isNum x \<and> isNum y \<and> \<bar>numValue x - numValue y\<bar> \<le> 10 ^ 6"
  then obtain a b where "x = Num a" "y = Num b" by (auto simp: isNum_iff)
  then show "isNum (sub lowLogs x y)"
    "\<bar>numValue (sub lowLogs x y) - (numValue x - numValue y)\<bar> \<le> tol"
    using tol_value(1) by (simp_all add: lowLogs_def reals_def js_sub_def)
next
  fix x assume "isNum x \<and> 1 \<le> numValue x"
  then obtain a where "x = Num a" by (auto simp: isNum_iff)
  then show "isNum (sub lowLogs x (flr lowLogs x))"
    "numValue (sub lowLogs x (flr lowLogs x)) = numValue x - of_int \<lfloor>numValue x\<rfloor>"
    by (simp_all add: lowLogs_def reals_def js_sub_def)
next
  fix x y assume "isNum x \<and> isNum y \<and> \<bar>numValue x * numValue y\<bar> \<le> 10 ^ 6"
  then obtain a b where "x = Num a" "y = Num b" by (auto simp: isNum_iff)
  then show "isNum (mul lowLogs x y)"
    "\<bar>numValue (mul lowLogs x y) - numValue x * numValue y\<bar> \<le> tol"
    using tol_value(1) by (simp_all add: lowLogs_def reals_def)
next
  fix x assume "isNum x \<and> 0 < numValue x"
  then obtain a where "x = Num a" "0 < a" by (auto simp: isNum_iff)
  then show "isNum (log10 lowLogs x)"
    "\<bar>numValue (log10 lowLogs x) - log 10 (numValue x)\<bar> \<le> tol"
    using tol_value(1) by (simp_all add: lowLogs_def reals_def Math_log10_def js_sub_def)
next
  fix x assume "isNum x \<and> 0 \<le> numValue x \<and> numValue x < 1"
  then obtain a where "x = Num a" by (auto simp: isNum_iff)
  then show "isNum (pow10 lowLogs x)"
    "\<bar>numValue (pow10 lowLogs x) - 10 powr numValue x\<bar> \<le> tol"
    using tol_value(1) by (simp_all add: lowLogs_def reals_def)
qed

lemma boundary_rate:
  "log 10 (2 ^ 100 / (31557600 * 10 ^ 6)) = 100 * log 10 2 - log 10 31557600 - 6"
proof -
  have "log 10 (2 ^ 100 / (31557600 * 10 ^ 6))
      = log 10 (2 ^ 100) - log 10 (31557600 * 10 ^ 6)"
    by (rule log_divide_pos) simp_all
  also have "log 10 (31557600 * 10 ^ 6) = log 10 31557600 + log 10 (10 ^ 6)"
    by (rule log_mult_pos) simp_all
  also have "log 10 ((10 :: real) ^ 6) = 6" using log_pow_cancel [of 10 6] by simp
  also have "log 10 ((2 :: real) ^ 100) = 100 * log 10 2" using log_nat_power [of 2 10 100] by simp
  finally show ?thesis by simp
qed

lemma boundary_run:
  "log10Years lowLogs (Num 100) (Num (2 ^ 100 / (31557600 * 10 ^ 6))) = Num (6 - 98 * tol)"
  "label (formatCrackTimeFromBits lowLogs (Num 100) (Num (2 ^ 100 / (31557600 * 10 ^ 6))))
     = Years (Num (10 powr (6 - 98 * tol)))"
proof -
  define r :: real where "r = 2 ^ 100 / (31557600 * 10 ^ 6)"
  define L2 :: real where "L2 = log 10 2"
  define LS :: real where "LS = log 10 31557600"
  have rpos: "0 < r" by (simp add: r_def)
  have lr: "log 10 r = 100 * L2 - LS - 6" unfolding r_def L2_def LS_def by (rule boundary_rate)
  have LS: "7 < LS" unfolding LS_def by (rule log10_year(1))
  have l2: "log10 lowLogs (Num 2) = Num (L2 - tol)"
    by (simp add: lowLogs_def Math_log10_def js_sub_def L2_def)
  have lrr: "log10 lowLogs (Num r) = Num (100 * L2 - LS - 6 - tol)"
    using rpos lr by (simp add: lowLogs_def Math_log10_def js_sub_def)
  have ls: "log10 lowLogs (Num 31557600) = Num (LS - tol)"
    by (simp add: lowLogs_def Math_log10_def js_sub_def LS_def)
  have ops: "lit lowLogs k = Num (real_of_int k)" "mul lowLogs (Num a) (Num b) = Num (a * b)"
    "sub lowLogs (Num a) (Num b) = Num (a - b)" "lt lowLogs (Num a) (Num b) = (a < b)"
    "le lowLogs (Num a) (Num b) = (a \<le> b)" "pow10 lowLogs (Num a) = Num (10 powr a)"
    for k a b
    by (auto simp: lowLogs_def reals_def of_integer_def js_sub_def)
  have S: "100 * (L2 - tol) - (100 * L2 - LS - 6 - tol) = 6 - 98 * tol + (LS - tol)"
    by (simp add: algebra_simps)
  have Y: "6 - 98 * tol + (LS - tol) - (LS - tol) = 6 - 98 * tol" by simp
  show "log10Years lowLogs (Num 100) (Num (2 ^ 100 / (31557600 * 10 ^ 6))) = Num (6 - 98 * tol)"
    unfolding log10Years_def r_def [symmetric] ops(1) using l2 lrr ls ops(2,3) S Y by simp
  have g1: "\<not> (100 :: real) \<le> 0" by simp
  have g2: "\<not> 6 - 98 * tol + (LS - tol) < 0" using LS tol_value by linarith
  have g3: "6 - 98 * tol < 6" using tol_value by linarith
  have "(10 :: real) powr 2 \<le> 10 powr (6 - 98 * tol)"
    by (rule powr_mono) (use tol_value in linarith, simp)
  then have g4: "\<not> 10 powr (6 - 98 * tol) < 60" by simp
  show "label (formatCrackTimeFromBits lowLogs (Num 100) (Num (2 ^ 100 / (31557600 * 10 ^ 6))))
     = Years (Num (10 powr (6 - 98 * tol)))"
    unfolding formatCrackTimeFromBits_def Let_def r_def [symmetric] ops(1)
    using l2 lrr ls ops S Y g1 g2 g3 g4 by (simp add: LS_def)
qed

text \<open>
  C7 (as amended). In every arithmetic that is like doubles in the sense of \<open>doubles\<close>:
  for finite \<open>bits > 0\<close>, whenever the \<open>log10Years\<close> that the function computes is finite
  and at least 6, the result is the scientific label with exponent \<open>floor(log10Years)\<close>,
  at least 6, and mantissa \<open>Math.pow(10, log10Years - exponent)\<close>, and no seconds value;
  the argument of that power, the only one taken, is in \<open>[0, 1)\<close>, and exponent and
  mantissa are finite, the mantissa between \<open>1 - tol\<close> and \<open>10 + tol\<close>. The computed
  \<open>log10Years\<close> is finite and within \<open>(bits + 5) * tol\<close> of
  \<open>bits * log10(2) - log10(guessesPerSecond) - log10(31557600)\<close> for bits up to \<open>10^5\<close> and
  rates between \<open>10^-300\<close> and \<open>10^300\<close>, so that it is at least 6 whenever that exact
  value is at least 6.001. For \<open>bits = 256\<close> and one guess per second the
  label is scientific with exponent 69 and a finite mantissa between 3.66 and 3.68. For
  \<open>bits <= 0\<close>, and so for \<open>bits = 0\<close>, the result is \<open><1 second\<close> whatever the rate,
  also at rates of at most \<open>10^-14\<close> guesses per second, where the computed \<open>log10Years\<close>
  is at least 6.
\<close>

theorem formatCrackTimeFromBits_scientific:
  assumes "doubles A fin val"
  shows
   "(fin b \<and> 0 < val b \<and> fin (log10Years A b r) \<and> 6 \<le> val (log10Years A b r) \<longrightarrow>
       formatCrackTimeFromBits A b r
         = \<lparr>label = Scientific (pow10 A (sub A (log10Years A b r) (flr A (log10Years A b r))))
                      (flr A (log10Years A b r)),
            seconds = None\<rparr> \<and>
       fin (flr A (log10Years A b r)) \<and>
       val (flr A (log10Years A b r)) = of_int \<lfloor>val (log10Years A b r)\<rfloor> \<and>
       6 \<le> \<lfloor>val (log10Years A b r)\<rfloor> \<and>
       fin (sub A (log10Years A b r) (flr A (log10Years A b r))) \<and>
       0 \<le> val (sub A (log10Years A b r) (flr A (log10Years A b r))) \<and>
       val (sub A (log10Years A b r) (flr A (log10Years A b r))) < 1 \<and>
       fin (pow10 A (sub A (log10Years A b r) (flr A (log10Years A b r)))) \<and>
       \<bar>val (pow10 A (sub A (log10Years A b r) (flr A (log10Years A b r))))
          - 10 powr (val (log10Years A b r) - of_int \<lfloor>val (log10Years A b r)\<rfloor>)\<bar> \<le> tol \<and>
       1 - tol \<le> val (pow10 A (sub A (log10Years A b r) (flr A (log10Years A b r)))) \<and>
       val (pow10 A (sub A (log10Years A b r) (flr A (log10Years A b r)))) < 10 + tol) \<and>
    (fin b \<and> 0 \<le> val b \<and> val b \<le> 10 ^ 5 \<and> fin r \<and> 1 / 10 ^ 300 \<le> val r \<and> val r \<le> 10 ^ 300 \<longrightarrow>
       fin (log10Years A b r) \<and>
       \<bar>val (log10Years A b r) - (val b * log 10 2 - log 10 (val r) - log 10 31557600)\<bar>
         \<le> (val b + 5) * tol) \<and>
    (fin b \<and> 0 < val b \<and> val b \<le> 10 ^ 5 \<and> fin r \<and> 1 / 10 ^ 300 \<le> val r \<and> val r \<le> 10 ^ 300 \<and>
     6 + 1 / 1000 \<le> val b * log 10 2 - log 10 (val r) - log 10 31557600 \<longrightarrow>
       fin (log10Years A b r) \<and> 6 \<le> val (log10Years A b r)) \<and>
    (\<exists>m e. formatCrackTimeFromBits A (lit A 256) (lit A 1)
              = \<lparr>label = Scientific m e, seconds = None\<rparr>
        \<and> fin m \<and> fin e \<and> val e = 69 \<and> 3.66 < val m \<and> val m < 3.68) \<and>
    (le A b (lit A 0) \<longrightarrow>
       formatCrackTimeFromBits A b r = \<lparr>label = LessThanSecond, seconds = Some (lit A 0)\<rparr>) \<and>
    formatCrackTimeFromBits A (lit A 0) r = \<lparr>label = LessThanSecond, seconds = Some (lit A 0)\<rparr> \<and>
    (fin r \<and> 1 / 10 ^ 300 \<le> val r \<and> val r \<le> 1 / 10 ^ 14 \<longrightarrow>
       fin (log10Years A (lit A 0) r) \<and> 6 \<le> val (log10Years A (lit A 0) r))"
proof (intro conjI)
  note D = assms
  note d = doublesD [OF D]
  show "fin b \<and> 0 < val b \<and> fin (log10Years A b r) \<and> 6 \<le> val (log10Years A b r) \<longrightarrow>
       formatCrackTimeFromBits A b r
         = \<lparr>label = Scientific (pow10 A (sub A (log10Years A b r) (flr A (log10Years A b r))))
                      (flr A (log10Years A b r)),
            seconds = None\<rparr> \<and>
       fin (flr A (log10Years A b r)) \<and>
       val (flr A (log10Years A b r)) = of_int \<lfloor>val (log10Years A b r)\<rfloor> \<and>
       6 \<le> \<lfloor>val (log10Years A b r)\<rfloor> \<and>
       fin (sub A (log10Years A b r) (flr A (log10Years A b r))) \<and>
       0 \<le> val (sub A (log10Years A b r) (flr A (log10Years A b r))) \<and>
       val (sub A (log10Years A b r) (flr A (log10Years A b r))) < 1 \<and>
       fin (pow10 A (sub A (log10Years A b r) (flr A (log10Years A b r)))) \<and>
       \<bar>val (pow10 A (sub A (log10Years A b r) (flr A (log10Years A b r))))
          - 10 powr (val (log10Years A b r) - of_int \<lfloor>val (log10Years A b r)\<rfloor>)\<bar> \<le> tol \<and>
       1 - tol \<le> val (pow10 A (sub A (log10Years A b r) (flr A (log10Years A b r)))) \<and>
       val (pow10 A (sub A (log10Years A b r) (flr A (log10Years A b r)))) < 10 + tol"
  proof
    assume h: "fin b \<and> 0 < val b \<and> fin (log10Years A b r) \<and> 6 \<le> val (log10Years A b r)"
    define LY where "LY = log10Years A b r"
    define f where "f = val LY - of_int \<lfloor>val LY\<rfloor>"
    from h have hb: "fin b" "0 < val b" and hL: "fin LY" "6 \<le> val LY" by (simp_all add: LY_def)
    note s = scientific_branch [OF D hb hL [unfolded LY_def], folded LY_def]
    have fl: "6 \<le> \<lfloor>val LY\<rfloor>" using hL(2) by (simp add: le_floor_iff)
    have f: "0 \<le> f" "f < 1" unfolding f_def by linarith+
    have p: "1 \<le> 10 powr f" using f(1) by (simp add: ge_one_powr_ge_zero)
    have "10 powr f < 10 powr 1" using f(2) by (subst powr_less_cancel_iff) simp_all
    then have q: "10 powr f < 10" by simp
    have m: "\<bar>val (pow10 A (sub A LY (flr A LY))) - 10 powr f\<bar> \<le> tol"
      using s(7) by (simp add: f_def)
    have m1: "1 - tol \<le> val (pow10 A (sub A LY (flr A LY)))" using m p by linarith
    have m2: "val (pow10 A (sub A LY (flr A LY))) < 10 + tol" using m q by linarith
    have v: "0 \<le> val (sub A LY (flr A LY))" "val (sub A LY (flr A LY)) < 1"
      unfolding s(5) using f by (simp_all add: f_def)
    show "formatCrackTimeFromBits A b r
         = \<lparr>label = Scientific (pow10 A (sub A (log10Years A b r) (flr A (log10Years A b r))))
                      (flr A (log10Years A b r)),
            seconds = None\<rparr> \<and>
       fin (flr A (log10Years A b r)) \<and>
       val (flr A (log10Years A b r)) = of_int \<lfloor>val (log10Years A b r)\<rfloor> \<and>
       6 \<le> \<lfloor>val (log10Years A b r)\<rfloor> \<and>
       fin (sub A (log10Years A b r) (flr A (log10Years A b r))) \<and>
       0 \<le> val (sub A (log10Years A b r) (flr A (log10Years A b r))) \<and>
       val (sub A (log10Years A b r) (flr A (log10Years A b r))) < 1 \<and>
       fin (pow10 A (sub A (log10Years A b r) (flr A (log10Years A b r)))) \<and>
       \<bar>val (pow10 A (sub A (log10Years A b r) (flr A (log10Years A b r))))
          - 10 powr (val (log10Years A b r) - of_int \<lfloor>val (log10Years A b r)\<rfloor>)\<bar> \<le> tol \<and>
       1 - tol \<le> val (pow10 A (sub A (log10Years A b r) (flr A (log10Years A b r)))) \<and>
       val (pow10 A (sub A (log10Years A b r) (flr A (log10Years A b r)))) < 10 + tol"
      using s(1-4) fl v s(6) s(7) m1 m2 unfolding LY_def by (intro conjI)
  qed
  show "fin b \<and> 0 \<le> val b \<and> val b \<le> 10 ^ 5 \<and> fin r \<and> 1 / 10 ^ 300 \<le> val r \<and> val r \<le> 10 ^ 300 \<longrightarrow>
       fin (log10Years A b r) \<and>
       \<bar>val (log10Years A b r) - (val b * log 10 2 - log 10 (val r) - log 10 31557600)\<bar>
         \<le> (val b + 5) * tol"
    using log10Years_accuracy [OF D, of b r] by blast
  show "fin b \<and> 0 < val b \<and> val b \<le> 10 ^ 5 \<and> fin r \<and> 1 / 10 ^ 300 \<le> val r \<and> val r \<le> 10 ^ 300 \<and>
     6 + 1 / 1000 \<le> val b * log 10 2 - log 10 (val r) - log 10 31557600 \<longrightarrow>
       fin (log10Years A b r) \<and> 6 \<le> val (log10Years A b r)"
    using margin_branch [OF D, of b r] by blast
  show "\<exists>m e. formatCrackTimeFromBits A (lit A 256) (lit A 1)
              = \<lparr>label = Scientific m e, seconds = None\<rparr>
        \<and> fin m \<and> fin e \<and> val e = 69 \<and> 3.66 < val m \<and> val m < 3.68"
  proof -
    define LY where "LY = log10Years A (lit A 256) (lit A 1)"
    have b: "fin (lit A 256)" "0 < val (lit A 256)" using d(1) [of 256] by simp_all
    note e = example_256 [OF D, folded LY_def]
    have e2: "\<bar>val LY - (256 * log 10 2 - log 10 31557600)\<bar> \<le> 1 / 1000000" using e(2) by simp
    have r: "69 \<le> val LY" "val LY < 70" using e2 X_bounds by linarith+
    then have fl: "\<lfloor>val LY\<rfloor> = 69" by linarith
    have six: "6 \<le> val LY" using r(1) by linarith
    note s = scientific_branch [OF D b e(1) [unfolded LY_def] six [unfolded LY_def], folded LY_def]
    have ve: "val (flr A LY) = 69" using s(3) fl by simp
    have "\<bar>val (pow10 A (sub A LY (flr A LY))) - 10 powr (val LY - 69)\<bar> \<le> tol"
      using s(7) fl by simp
    moreover have "3668 / 1000 < 10 powr (val LY - 69)" "10 powr (val LY - 69) < 3671 / 1000"
      using mantissa_256 [OF e(2)] by simp_all
    ultimately have "366 / 100 < val (pow10 A (sub A LY (flr A LY)))"
      "val (pow10 A (sub A LY (flr A LY))) < 368 / 100" using tol_value by linarith+
    then have vm: "3.66 < val (pow10 A (sub A LY (flr A LY)))"
      "val (pow10 A (sub A LY (flr A LY))) < 3.68" by simp_all
    show ?thesis
      using s(1) s(6) s(2) ve vm unfolding LY_def by blast
  qed
  show "le A b (lit A 0) \<longrightarrow>
       formatCrackTimeFromBits A b r = \<lparr>label = LessThanSecond, seconds = Some (lit A 0)\<rparr>"
    by (simp add: formatCrackTimeFromBits_def)
  show "formatCrackTimeFromBits A (lit A 0) r = \<lparr>label = LessThanSecond, seconds = Some (lit A 0)\<rparr>"
    by (rule zero_bits_label [OF D])
  show "fin r \<and> 1 / 10 ^ 300 \<le> val r \<and> val r \<le> 1 / 10 ^ 14 \<longrightarrow>
       fin (log10Years A (lit A 0) r) \<and> 6 \<le> val (log10Years A (lit A 0) r)"
    using zero_bits [OF D, of r] by blast
qed

text \<open>
  C7, witness: the exact reals are like doubles, and there \<open>bits = 256\<close> and one guess
  per second give \<open>log10Years\<close> above 6, the exponent 69 and the mantissa
  \<open>2^256 / (31557600 * 10^69)\<close>, between 3.66 and 3.68.
\<close>

theorem formatCrackTimeFromBits_scientific_witness:
  "doubles reals isNum numValue \<and>
   log10Years reals (Num 256) (Num 1) = Num (256 * log 10 2 - log 10 31557600) \<and>
   6 \<le> 256 * log 10 2 - log 10 31557600 \<and>
   formatCrackTimeFromBits reals (Num 256) (Num 1)
     = \<lparr>label = Scientific (Num (2 ^ 256 / (31557600 * 10 ^ 69))) (Num 69), seconds = None\<rparr> \<and>
   3.66 < (2 ^ 256 / (31557600 * 10 ^ 69) :: real) \<and>
   (2 ^ 256 / (31557600 * 10 ^ 69) :: real) < 3.68"
proof -
  define L :: real where "L = 256 * log 10 2 - log 10 31557600"
  have LY: "log10Years reals (Num 256) (Num 1) = Num L"
    using log10Years_reals [of 1 256] by (simp add: L_def)
  have b: "69 \<le> L" "L < 70" using X_bounds unfolding L_def by linarith+
  then have fl: "\<lfloor>L\<rfloor> = 69" by linarith
  have six: "6 \<le> L" using b(1) by linarith
  have "10 powr L = 2 ^ 256 / 31557600" using years_value [of 1 256] by (simp add: L_def)
  moreover have "10 powr (L - 69) = 10 powr L / 10 powr 69" by (rule powr_diff)
  ultimately have man: "10 powr (L - 69) = 2 ^ 256 / (31557600 * 10 ^ 69)" by simp
  have hyp: "isNum (Num 256) \<and> 0 < numValue (Num 256) \<and> isNum (log10Years reals (Num 256) (Num 1))
      \<and> 6 \<le> numValue (log10Years reals (Num 256) (Num 1))"
    unfolding LY using six by simp
  from formatCrackTimeFromBits_scientific [OF reals_doubles, of "Num 256" "Num 1"] hyp
  have "formatCrackTimeFromBits reals (Num 256) (Num 1)
         = \<lparr>label = Scientific
               (pow10 reals (sub reals (log10Years reals (Num 256) (Num 1))
                  (flr reals (log10Years reals (Num 256) (Num 1)))))
               (flr reals (log10Years reals (Num 256) (Num 1))),
            seconds = None\<rparr>"
    by blast
  moreover have "flr reals (Num L) = Num 69" using fl by (simp add: reals_def)
  moreover have "pow10 reals (sub reals (Num L) (Num 69)) = Num (2 ^ 256 / (31557600 * 10 ^ 69))"
    using man by (simp add: reals_def js_sub_def)
  ultimately have run: "formatCrackTimeFromBits reals (Num 256) (Num 1)
     = \<lparr>label = Scientific (Num (2 ^ 256 / (31557600 * 10 ^ 69))) (Num 69), seconds = None\<rparr>"
    unfolding LY by simp
  have n: "3.66 < (2 ^ 256 / (31557600 * 10 ^ 69) :: real)"
    "(2 ^ 256 / (31557600 * 10 ^ 69) :: real) < 3.68" by simp_all
  show ?thesis using reals_doubles LY [unfolded L_def] six [unfolded L_def] run n by (intro conjI)
qed

text \<open>
  C7, counterexample to the claim as stated for every \<open>bits \<ge> 0\<close>: with \<open>bits = 0\<close> and
  \<open>10^-14\<close> guesses per second \<open>log10Years\<close> is above 6, and the label is \<open><1 second\<close>,
  by the first guard \<open>bits <= 0\<close>. And the exact value of \<open>log10Years\<close> does not decide the
  branch: for \<open>bits = 100\<close> and \<open>2^100 / (31557600 * 10^6)\<close> guesses per second it is 6,
  and in the arithmetic whose \<open>Math.log10\<close> is low by \<open>tol\<close> the computed one is below 6
  and the label is the plain number of years.
\<close>

theorem formatCrackTimeFromBits_zero_bits_counterexample:
  "(0 :: real) \<le> 0 \<and> (0 :: real) < 1 / 10 ^ 14 \<and>
   log10Years reals (Num 0) (Num (1 / 10 ^ 14))
     = Num (0 * log 10 2 - log 10 (1 / 10 ^ 14) - log 10 31557600) \<and>
   6 \<le> 0 * log 10 2 - log 10 (1 / 10 ^ 14) - log 10 31557600 \<and>
   formatCrackTimeFromBits reals (Num 0) (Num (1 / 10 ^ 14))
     = \<lparr>label = LessThanSecond, seconds = Some (Num 0)\<rparr> \<and>
   doubles lowLogs isNum numValue \<and>
   100 * log 10 2 - log 10 (2 ^ 100 / (31557600 * 10 ^ 6)) - log 10 31557600 = 6 \<and>
   log10Years lowLogs (Num 100) (Num (2 ^ 100 / (31557600 * 10 ^ 6))) = Num (6 - 98 * tol) \<and>
   label (formatCrackTimeFromBits lowLogs (Num 100) (Num (2 ^ 100 / (31557600 * 10 ^ 6))))
     = Years (Num (10 powr (6 - 98 * tol)))"
proof -
  have "(0 :: real) < 1 / 10 ^ 14" by simp
  from log10Years_reals [OF this, of 0]
  have LY: "log10Years reals (Num 0) (Num (1 / 10 ^ 14))
     = Num (0 * log 10 2 - log 10 (1 / 10 ^ 14) - log 10 31557600)" .
  have "log 10 (1 / 10 ^ 14) = - log 10 ((10 :: real) ^ 14)"
    by (simp add: log_divide)
  also have "log 10 ((10 :: real) ^ 14) = 14" using log_pow_cancel [of 10 14] by simp
  finally have "log 10 (1 / 10 ^ 14) = - 14" by simp
  then have six: "6 \<le> 0 * log 10 2 - log 10 (1 / 10 ^ 14) - log 10 31557600"
    using log10_year(2) by linarith
  have run: "formatCrackTimeFromBits reals (Num 0) (Num (1 / 10 ^ 14))
     = \<lparr>label = LessThanSecond, seconds = Some (Num 0)\<rparr>"
    by (simp add: formatCrackTimeFromBits_def reals_def of_integer_def)
  have edge: "100 * log 10 2 - log 10 (2 ^ 100 / (31557600 * 10 ^ 6)) - log 10 31557600 = 6"
    unfolding boundary_rate by simp
  have "(0 :: real) \<le> 0" "(0 :: real) < 1 / 10 ^ 14" by simp_all
  then show ?thesis using LY six run lowLogs_doubles edge boundary_run by (intro conjI)
qed

section \<open>Passphrase mode\<close>

lemma choiceBits_simps:
  "choiceBits [] = 0" "choiceBits (xs @ ys) = choiceBits xs + choiceBits ys"
  "choiceBits (replicate n c) = real n * log 2 (real c)"
  by (simp_all add: choiceBits_def sum_list_replicate)

lemma candidateSizes_ge2: "c \<in> set (candidateSizes s) \<Longrightarrow> 2 \<le> c"
proof -
  assume "c \<in> set (candidateSizes s)"
  then obtain ch alts where "LEET_MAP (toLowerCase ch) = Some alts" "c = Suc (length alts)"
    by (auto simp: candidateSizes_def split: option.splits intro: sym)
  then show ?thesis using LEET_MAP_short by fastforce
qed

lemma capStage_Return:
  assumes "capStage opts (pw, t) g = Return (pw', t') g'"
  shows "length pw' = length pw"
    and "enableCap opts \<Longrightarrow>
           t' = t\<lparr>capitalisation := True, lettersCount := length (filter isLetter pw)\<rparr>
           \<and> choices g' = choices g @ replicate (length (filter isLetter pw)) 2"
    and "\<not> enableCap opts \<Longrightarrow> t' = t \<and> pw' = pw \<and> g' = g"
proof -
  show "\<not> enableCap opts \<Longrightarrow> t' = t \<and> pw' = pw \<and> g' = g"
    using assms by (simp add: capStage_def)
  have en: "length pw' = length pw
      \<and> t' = t\<lparr>capitalisation := True, lettersCount := length (filter isLetter pw)\<rparr>
      \<and> choices g' = choices g @ replicate (length (filter isLetter pw)) 2" if "enableCap opts"
  proof -
    from assms that obtain res where
      r: "capLoop pw [] 0 g = Return res g'" and
      e: "pw' = cap_text res" "t' = t\<lparr>capitalisation := True, lettersCount := cap_lettersCount res\<rparr>"
      by (auto simp: capStage_def randomizeCapitalization_def split: outcome.splits)
    from capLoop_Return [OF r] obtain ys where
      "cap_text res = [] @ ys"
      "list_all2 (\<lambda>c y. if isLetter c then y = toUpperCase c \<or> y = toLowerCase c else y = c) pw ys"
      "cap_lettersCount res = 0 + length (filter isLetter pw)"
      "choices g' = choices g @ replicate (length (filter isLetter pw)) 2" by blast
    then show ?thesis using e by (simp add: list_all2_lengthD)
  qed
  then show "enableCap opts \<Longrightarrow>
           t' = t\<lparr>capitalisation := True, lettersCount := length (filter isLetter pw)\<rparr>
           \<and> choices g' = choices g @ replicate (length (filter isLetter pw)) 2" by simp
  show "length pw' = length pw"
    using en assms by (cases "enableCap opts") (simp_all add: capStage_def)
qed

lemma leetStage_Return:
  assumes "leetStage opts (pw, t) g = Return (pw', t') g'"
  shows "length pw' = length pw"
    and "enableLeet opts \<Longrightarrow>
           t' = t\<lparr>leet := True, leetChoices := candidateSizes pw\<rparr>
           \<and> choices g' = choices g @ candidateSizes pw"
    and "\<not> enableLeet opts \<Longrightarrow> t' = t \<and> pw' = pw \<and> g' = g"
proof -
  show "\<not> enableLeet opts \<Longrightarrow> t' = t \<and> pw' = pw \<and> g' = g"
    using assms by (simp add: leetStage_def)
  have en: "length pw' = length pw
      \<and> t' = t\<lparr>leet := True, leetChoices := candidateSizes pw\<rparr>
      \<and> choices g' = choices g @ candidateSizes pw" if "enableLeet opts"
  proof -
    from assms that obtain res where
      r: "leetLoop pw [] [] g = Return res g'" and
      e: "pw' = leet_text res" "t' = t\<lparr>leet := True, leetChoices := leet_choices res\<rparr>"
      by (auto simp: leetStage_def applyLeet_def split: outcome.splits)
    from leetLoop_Return [OF r] obtain ys where
      "leet_text res = [] @ ys"
      "list_all2 (\<lambda>c y. case LEET_MAP (toLowerCase c) of None \<Rightarrow> y = c
                         | Some alts \<Rightarrow> y \<in> set (c # alts)) pw ys"
      "leet_choices res = [] @ candidateSizes pw"
      "choices g' = choices g @ candidateSizes pw" by blast
    then show ?thesis using e by (simp add: list_all2_lengthD)
  qed
  then show "enableLeet opts \<Longrightarrow>
           t' = t\<lparr>leet := True, leetChoices := candidateSizes pw\<rparr>
           \<and> choices g' = choices g @ candidateSizes pw" by simp
  show "length pw' = length pw"
    using en assms by (cases "enableLeet opts") (simp_all add: leetStage_def)
qed

lemma extrasStage_Return:
  assumes "extrasStage opts (pw, t) g = Return (pw', t') g'"
  shows "enableInsertExtras opts \<Longrightarrow>
           \<exists>k. 1 \<le> k \<and> k \<le> 4 \<and> length pw' = length pw + k \<and>
             t' = t\<lparr>insertions := Some \<lparr>count = k, choiceSize = 37\<rparr>, baseLen := length pw\<rparr>"
    and "\<not> enableInsertExtras opts \<Longrightarrow> t' = t \<and> pw' = pw \<and> g' = g"
proof -
  show "\<not> enableInsertExtras opts \<Longrightarrow> t' = t \<and> pw' = pw \<and> g' = g"
    using assms by (simp add: extrasStage_def)
  show "\<exists>k. 1 \<le> k \<and> k \<le> 4 \<and> length pw' = length pw + k \<and>
             t' = t\<lparr>insertions := Some \<lparr>count = k, choiceSize = 37\<rparr>, baseLen := length pw\<rparr>"
    if "enableInsertExtras opts"
  proof -
    from assms that obtain res where
      r: "insertExtras pw \<lparr>digits = True, symbols = True\<rparr> g = Return res g'" and
      e: "pw' = ex_text res"
         "t' = t\<lparr>insertions := Some \<lparr>count = ex_count res, choiceSize = ex_choiceSize res\<rparr>,
                  baseLen := ex_baseLen res\<rparr>"
      by (auto simp: extrasStage_def split: outcome.splits)
    from insertExtras_Return [OF r] obtain r' where
      h: "ex_count res = 1 + r'" "ex_count res \<le> maxInsertOf (length pw)"
         "ex_baseLen res = length pw" "ex_choiceSize res = 37"
         "length (ex_text res) = length pw + ex_count res"
      by auto
    have "ex_count res \<le> 4" using h(2) maxInsertOf_bounds(2) [of "length pw"] by linarith
    then show ?thesis using h e by (intro exI [of _ "ex_count res"]) simp
  qed
qed

lemma leet_fold:
  "\<forall>c\<in>set cs. 0 < c \<Longrightarrow>
     fold (\<lambda>c b. js_add b (Math_log2 (of_count c))) cs (Num x) = Num (x + choiceBits cs)"
proof (induction cs arbitrary: x)
  case Nil
  then show ?case by (simp add: choiceBits_def)
next
  case (Cons c cs)
  have "Math_log2 (of_count c) = Num (log 2 (real c))"
    using Cons.prems by (simp add: of_count_def Math_log2_def)
  then show ?case using Cons by (simp add: choiceBits_def add.assoc)
qed

lemma bits_value:
  assumes "0 < W" and "\<forall>c\<in>set (leetChoices t). 0 < c"
    and "\<forall>ins. insertions t = Some ins \<longrightarrow> 0 < choiceSize ins"
  shows "bitsForPassphraseModel n W t
      = Num (real n * log 2 (real W)
             + (if capitalisation t then real (lettersCount t) else 0)
             + (if leet t then choiceBits (leetChoices t) else 0)
             + (case insertions t of None \<Rightarrow> 0
                | Some ins \<Rightarrow> real (count ins) * log 2 (real (choiceSize ins))
                    + log 2 (real ((baseLen t + count ins) choose count ins))))"
proof -
  define b0 where "b0 = real n * log 2 (real W)"
  define b1 where "b1 = b0 + (if capitalisation t then real (lettersCount t) else 0)"
  define b2 where "b2 = b1 + (if leet t then choiceBits (leetChoices t) else 0)"
  have s0: "js_mul (of_count n) (Math_log2 (of_count W)) = Num b0"
    using assms(1) by (simp add: of_count_def Math_log2_def b0_def)
  have s1: "(if capitalisation t \<and> lettersCount t \<noteq> 0
             then js_add (Num b0) (js_mul (of_count (lettersCount t)) (Num 1)) else Num b0) = Num b1"
    by (simp add: of_count_def b1_def)
  have s2: "(if leet t \<and> leetChoices t \<noteq> []
             then fold (\<lambda>c b. js_add b (Math_log2 (of_count c))) (leetChoices t) (Num b1)
             else Num b1) = Num b2"
    using leet_fold [OF assms(2), of b1] by (auto simp: b2_def choiceBits_def)
  have s3: "(case insertions t of None \<Rightarrow> Num b2
       | Some ins \<Rightarrow>
           if count ins = 0 then Num b2
           else js_add (js_add (Num b2) (js_mul (of_count (count ins)) (Math_log2 (of_count (choiceSize ins)))))
                  (log2_nCr (int (baseLen t + count ins)) (int (count ins))))
     = Num (b2 + (case insertions t of None \<Rightarrow> 0
                | Some ins \<Rightarrow> real (count ins) * log 2 (real (choiceSize ins))
                    + log 2 (real ((baseLen t + count ins) choose count ins))))"
  proof (cases "insertions t")
    case None
    then show ?thesis by simp
  next
    case (Some ins)
    have cs: "0 < choiceSize ins" using assms(3) Some by simp
    have "log2_nCr (int (baseLen t + count ins)) (int (count ins))
        = Num (log 2 (real (nat (int (baseLen t + count ins)) choose nat (int (count ins)))))"
      by (rule log2_nCr_value(1)) simp_all
    then have nCr: "log2_nCr (int (baseLen t + count ins)) (int (count ins))
        = Num (log 2 (real ((baseLen t + count ins) choose count ins)))"
      by (simp only: nat_int)
    then have nCr': "log2_nCr (int (baseLen t) + int (count ins)) (int (count ins))
        = Num (log 2 (real ((baseLen t + count ins) choose count ins)))"
      by (simp only: of_nat_add)
    show ?thesis
      using Some cs by (simp add: of_count_def Math_log2_def nCr' add.assoc)
  qed
  show ?thesis
    unfolding bitsForPassphraseModel_def Let_def s0 s1 s2 s3
    by (simp add: b2_def b1_def b0_def)
qed

lemma generatePassphrase_Return:
  assumes "generatePassphrase wl opts g = Return res g'"
  shows "\<exists>ws g1 pw1 t1 g2 pw2 t2 g3.
      chooseWords (numWords opts) wl (personal opts) [] g = Return ws g1 \<and>
      capStage opts (join ws (separator opts),
                     \<lparr>capitalisation = False, lettersCount = 0, leet = False, leetChoices = [],
                      insertions = None, baseLen = length (join ws (separator opts))\<rparr>) g1
        = Return (pw1, t1) g2 \<and>
      leetStage opts (pw1, t1) g2 = Return (pw2, t2) g3 \<and>
      extrasStage opts (pw2, t2) g3 = Return (password res, transforms res) g' \<and>
      bits res = bitsForPassphraseModel (numWords opts) (length wl) (transforms res) \<and>
      words res = ws"
  using assms
  by (auto simp: generatePassphrase_def Let_def split: outcome.splits)

lemma lower_of_cased:
  assumes "isLetter c"
  shows "toLowerCase (toUpperCase c) = toLowerCase c" "toLowerCase (toLowerCase c) = toLowerCase c"
proof -
  define n where "n = (of_char c :: nat)"
  have c: "c = char_of n" by (simp add: n_def)
  have r: "(97 \<le> n \<and> n \<le> 122) \<or> (65 \<le> n \<and> n \<le> 90)"
    using assms by (simp add: isLetter_def n_def Let_def)
  have up: "(of_char (char_of (n - 32)) :: nat) = n - 32" if "97 \<le> n \<and> n \<le> 122"
  proof -
    have "n - 32 < 256" using that by linarith
    then show ?thesis by simp
  qed
  have lo: "(of_char (char_of (n + 32)) :: nat) = n + 32" if "65 \<le> n \<and> n \<le> 90"
  proof -
    have "n + 32 < 256" using that by linarith
    then show ?thesis by simp
  qed
  show "toLowerCase (toUpperCase c) = toLowerCase c"
    using r up lo unfolding toLowerCase_def toUpperCase_def Let_def n_def [symmetric]
    by (auto simp: c)
  show "toLowerCase (toLowerCase c) = toLowerCase c"
    using r up lo unfolding toLowerCase_def Let_def n_def [symmetric]
    by (auto simp: c)
qed

lemma candidateSizes_Cons:
  "candidateSizes (c # s)
     = (case LEET_MAP (toLowerCase c) of None \<Rightarrow> [] | Some alts \<Rightarrow> [Suc (length alts)])
       @ candidateSizes s"
  by (simp add: candidateSizes_def)

lemma candidateSizes_cap:
  "list_all2 (\<lambda>c y. if isLetter c then y = toUpperCase c \<or> y = toLowerCase c else y = c) s ys \<Longrightarrow>
     candidateSizes ys = candidateSizes s"
proof (induction rule: list_all2_induct)
  case Nil
  then show ?case by simp
next
  case (Cons c s y ys)
  have "toLowerCase y = toLowerCase c"
    using Cons.hyps(1) lower_of_cased [of c] by (auto split: if_splits)
  then show ?case using Cons.IH by (simp add: candidateSizes_Cons)
qed

lemma capStage_sizes:
  assumes "capStage opts (pw, t) g = Return (pw', t') g'"
  shows "candidateSizes pw' = candidateSizes pw"
proof (cases "enableCap opts")
  case True
  with assms obtain res where
    r: "capLoop pw [] 0 g = Return res g'" and e: "pw' = cap_text res"
    by (auto simp: capStage_def randomizeCapitalization_def split: outcome.splits)
  from capLoop_Return [OF r] obtain ys where
    "cap_text res = [] @ ys"
    "list_all2 (\<lambda>c y. if isLetter c then y = toUpperCase c \<or> y = toLowerCase c else y = c) pw ys"
    by blast
  then show ?thesis using e candidateSizes_cap by simp
next
  case False
  then show ?thesis using assms by (simp add: capStage_def)
qed

lemma chooseWords_draws:
  "chooseWords n wl hint acc g = Return ws g' \<Longrightarrow>
     \<exists>new ds. ws = acc @ new \<and> length ds = n \<and> list_all2 (wordDraw wl hint) ds new
        \<and> choices g' = choices g @ concat ds"
proof (induction n arbitrary: acc g)
  case 0
  then show ?case by simp
next
  case (Suc n)
  show ?case
  proof (cases "1 < length hint")
    case True
    with Suc.prems obtain r g1 where
      five: "secureRandomInt 5 g = Return r g1" by (auto split: outcome.splits)
    have c1: "choices g1 = choices g @ [5]" using secureRandomInt_Return(3) [OF five] by simp
    show ?thesis
    proof (cases "r = 0")
      case zero: True
      with Suc.prems True five have
        k: "chooseWords n wl hint (acc @ [hintWord hint]) g1 = Return ws g'" by simp
      from Suc.IH [OF k] obtain new ds where
        h: "ws = (acc @ [hintWord hint]) @ new" "length ds = n"
           "list_all2 (wordDraw wl hint) ds new" "choices g' = choices g1 @ concat ds" by blast
      have "wordDraw wl hint [5] (hintWord hint)" using True by (simp add: wordDraw_def)
      then have "ws = acc @ (hintWord hint # new) \<and> length ([5] # ds) = Suc n
          \<and> list_all2 (wordDraw wl hint) ([5] # ds) (hintWord hint # new)
          \<and> choices g' = choices g @ concat ([5] # ds)"
        using h c1 by simp
      then show ?thesis by blast
    next
      case False
      with Suc.prems True five obtain w g2 where
        c: "secureChoice wl g1 = Return w g2" and
        k: "chooseWords n wl hint (acc @ [w]) g2 = Return ws g'"
        by (auto split: outcome.splits)
      from secureChoice_Return [OF c] have w: "w \<in> set wl" "choices g2 = choices g1 @ [length wl]"
        by simp_all
      from Suc.IH [OF k] obtain new ds where
        h: "ws = (acc @ [w]) @ new" "length ds = n"
           "list_all2 (wordDraw wl hint) ds new" "choices g' = choices g2 @ concat ds" by blast
      have "wordDraw wl hint [5, length wl] w" using True w(1) by (simp add: wordDraw_def)
      then have "ws = acc @ (w # new) \<and> length ([5, length wl] # ds) = Suc n
          \<and> list_all2 (wordDraw wl hint) ([5, length wl] # ds) (w # new)
          \<and> choices g' = choices g @ concat ([5, length wl] # ds)"
        using h c1 w(2) by simp
      then show ?thesis by blast
    qed
  next
    case False
    with Suc.prems obtain w g2 where
      c: "secureChoice wl g = Return w g2" and
      k: "chooseWords n wl hint (acc @ [w]) g2 = Return ws g'"
      by (auto split: outcome.splits)
    from secureChoice_Return [OF c] have w: "w \<in> set wl" "choices g2 = choices g @ [length wl]"
      by simp_all
    from Suc.IH [OF k] obtain new ds where
      h: "ws = (acc @ [w]) @ new" "length ds = n"
         "list_all2 (wordDraw wl hint) ds new" "choices g' = choices g2 @ concat ds" by blast
    have "wordDraw wl hint [length wl] w" using False w(1) by (simp add: wordDraw_def)
    then have "ws = acc @ (w # new) \<and> length ([length wl] # ds) = Suc n
        \<and> list_all2 (wordDraw wl hint) ([length wl] # ds) (w # new)
        \<and> choices g' = choices g @ concat ([length wl] # ds)"
      using h w(2) by simp
    then show ?thesis by blast
  qed
qed

lemma chooseWords_fed:
  "wl \<noteq> [] \<Longrightarrow> length wl \<le> 2147483648 \<Longrightarrow> fed (2 * n + k) g \<Longrightarrow>
     \<exists>ws g'. chooseWords n wl hint acc g = Return ws g' \<and> fed k g'"
proof (induction n arbitrary: acc g)
  case 0
  then show ?case by simp
next
  case (Suc n)
  have f0: "fed (Suc (Suc (2 * n + k))) g" using Suc.prems(3) by simp
  obtain r g1 where
    p: "(if 1 < length hint then secureRandomInt 5 g else Return 1 g) = Return r g1"
    and f1: "fed (Suc (2 * n + k)) g1"
  proof (cases "1 < length hint")
    case True
    from secureRandomInt_fed [OF _ _ f0, of 5] obtain v g1 where
      "secureRandomInt 5 g = Return v g1" "fed (Suc (2 * n + k)) g1" by auto
    then show ?thesis using True that [of v g1] by simp
  next
    case False
    have "fed (Suc (2 * n + k)) g" using f0 by (rule fed_mono) simp
    moreover have "(if 1 < length hint then secureRandomInt 5 g else Return 1 g) = Return 1 g"
      using False by (rule if_not_P)
    ultimately show ?thesis using that [of 1 g] by blast
  qed
  show ?case
  proof (cases "1 < length hint \<and> r = 0")
    case True
    have "fed (2 * n + k) g1" using f1 by (rule fed_mono) simp
    from Suc.IH [OF Suc.prems(1,2) this] obtain ws g' where
      "chooseWords n wl hint (acc @ [hintWord hint]) g1 = Return ws g'" "fed k g'" by blast
    then show ?thesis unfolding chooseWords.simps p using True by simp
  next
    case False
    from secureChoice_fed [OF Suc.prems(1,2) f1] obtain w g2 where
      c: "secureChoice wl g1 = Return w g2" and f2: "fed (2 * n + k) g2" by blast
    from Suc.IH [OF Suc.prems(1,2) f2] obtain ws g' where
      "chooseWords n wl hint (acc @ [w]) g2 = Return ws g'" "fed k g'" by blast
    then show ?thesis unfolding chooseWords.simps p using c False by auto
  qed
qed

lemma join_length:
  "\<forall>w\<in>set ws. length w \<le> m \<Longrightarrow> length (join ws sep) \<le> length ws * (m + length sep)"
proof (induction ws sep rule: join.induct)
  case (1 sep)
  then show ?case by simp
next
  case (2 w sep)
  then show ?case by simp
next
  case (3 w v va sep)
  then have "length (join (v # va) sep) \<le> length (v # va) * (m + length sep)" by simp
  moreover have "length w \<le> m" using 3(2) by simp
  ultimately show ?case by simp
qed

lemma hintWord_length: "length (hintWord p) \<le> 12"
  by (simp add: hintWord_def)

lemma wordDraw_length:
  assumes "list_all2 (wordDraw wl hint) ds ws" "\<forall>w\<in>set wl. length w \<le> m"
  shows "\<forall>w\<in>set ws. length w \<le> max m 12"
proof
  fix w assume "w \<in> set ws"
  then obtain i where i: "i < length ws" "ws ! i = w" by (auto simp: in_set_conv_nth)
  have "length ds = length ws" using assms(1) by (rule list_all2_lengthD)
  then have "wordDraw wl hint (ds ! i) (ws ! i)"
    using assms(1) i(1) by (simp add: list_all2_conv_all_nth)
  then have "w = hintWord hint \<or> w \<in> set wl" using i(2) by (auto simp: wordDraw_def split: if_splits)
  then show "length w \<le> max m 12" using assms(2) hintWord_length [of hint] by auto
qed

lemma capStage_fed:
  assumes "fed (length pw + k) g"
  shows "\<exists>pw' t' g'. capStage opts (pw, t) g = Return (pw', t') g' \<and> fed k g'"
proof (cases "enableCap opts")
  case True
  from capLoop_fed [OF assms, of "[]" 0] obtain res g' where
    "capLoop pw [] 0 g = Return res g'" "fed k g'" by blast
  then show ?thesis using True by (simp add: capStage_def randomizeCapitalization_def)
next
  case False
  have "fed k g" using assms by (rule fed_mono) simp
  then show ?thesis using False by (simp add: capStage_def)
qed

lemma leetStage_fed:
  assumes "fed (length pw + k) g"
  shows "\<exists>pw' t' g'. leetStage opts (pw, t) g = Return (pw', t') g' \<and> fed k g'"
proof (cases "enableLeet opts")
  case True
  from leetLoop_fed [OF assms, of "[]" "[]"] obtain res g' where
    "leetLoop pw [] [] g = Return res g'" "fed k g'" by blast
  then show ?thesis using True by (simp add: leetStage_def applyLeet_def)
next
  case False
  have "fed k g" using assms by (rule fed_mono) simp
  then show ?thesis using False by (simp add: leetStage_def)
qed

lemma extrasStage_fed:
  assumes "fed 13 g" "length pw + 4 \<le> 2147483648"
  shows "\<exists>pw' t' g'. extrasStage opts (pw, t) g = Return (pw', t') g'"
proof (cases "enableInsertExtras opts")
  case True
  from insertExtras_fed [OF assms, of "\<lparr>digits = True, symbols = True\<rparr>"] obtain res g' where
    "insertExtras pw \<lparr>digits = True, symbols = True\<rparr> g = Return res g'" by blast
  then show ?thesis using True by (simp add: extrasStage_def)
next
  case False
  then show ?thesis by (simp add: extrasStage_def)
qed

lemma extrasStage_draws:
  assumes "extrasStage opts (pw, t) g = Return (pw', t') g'" "enableInsertExtras opts"
  shows "\<exists>k vs. 1 \<le> k \<and> k \<le> maxInsertOf (length pw) \<and> length pw' = length pw + k \<and>
           t' = t\<lparr>insertions := Some \<lparr>count = k, choiceSize = 37\<rparr>, baseLen := length pw\<rparr> \<and>
           length vs = k \<and> set vs \<subseteq> {[2, 27], [2, 10]} \<and>
           choices g' = choices g @ [maxInsertOf (length pw)] @ concat vs
                        @ map (\<lambda>i. length pw + i + 1) [0..<k]"
proof -
  from assms obtain res where
    r: "insertExtras pw \<lparr>digits = True, symbols = True\<rparr> g = Return res g'" and
    e: "pw' = ex_text res"
       "t' = t\<lparr>insertions := Some \<lparr>count = ex_count res, choiceSize = ex_choiceSize res\<rparr>,
                baseLen := ex_baseLen res\<rparr>"
    by (auto simp: extrasStage_def split: outcome.splits)
  from insertExtras_Return [OF r] obtain r' g1 vs where
    h: "ex_count res = 1 + r'" "ex_count res \<le> maxInsertOf (length pw)"
       "ex_baseLen res = length pw" "ex_choiceSize res = 37"
       "length (ex_text res) = length pw + ex_count res"
       "length vs = ex_count res" "set vs \<subseteq> valueDraws \<lparr>digits = True, symbols = True\<rparr>"
       "choices g' = choices g @ [maxInsertOf (length pw)] @ concat vs
                   @ map (\<lambda>i. length pw + i + 1) [0..<ex_count res]"
    by auto
  have v: "set vs \<subseteq> {[2, 27], [2, 10]}" using h(7) by (simp add: valueDraws_def)
  have one: "1 \<le> ex_count res" using h(1) by simp
  show ?thesis
    using one h(2) h(5) h(6) v h(8) e h(3,4)
    by (intro exI [of _ "ex_count res"] exI [of _ vs]) simp
qed

lemma generatePassphrase_fed:
  assumes "wl \<noteq> []" "length wl \<le> 2147483648" "\<forall>w\<in>set wl. length w \<le> m"
    and "numWords opts * (max m 12 + length (separator opts)) + 4 \<le> 2147483648"
    and "fed (2 * numWords opts + 2 * (numWords opts * (max m 12 + length (separator opts))) + 13) g"
  shows "\<exists>res g'. generatePassphrase wl opts g = Return res g'"
proof -
  define B where "B = numWords opts * (max m 12 + length (separator opts))"
  have "2 * numWords opts + (2 * B + 13) = 2 * numWords opts + 2 * B + 13" by simp
  then have f: "fed (2 * numWords opts + (2 * B + 13)) g" using assms(5) by (simp only: B_def)
  from chooseWords_fed [OF assms(1,2) f] obtain ws g1 where
    w: "chooseWords (numWords opts) wl (personal opts) [] g = Return ws g1" and
    f1: "fed (2 * B + 13) g1" by blast
  from chooseWords_draws [OF w] obtain ds where
    ds: "length ds = numWords opts" "list_all2 (wordDraw wl (personal opts)) ds ws" by auto
  have nw: "length ws = numWords opts" using list_all2_lengthD [OF ds(2)] ds(1) by simp
  let ?pw = "join ws (separator opts)"
  let ?t0 = "\<lparr>capitalisation = False, lettersCount = 0, leet = False, leetChoices = [],
              insertions = None, baseLen = length ?pw\<rparr>"
  have len: "length ?pw \<le> B"
    using join_length [OF wordDraw_length [OF ds(2) assms(3)], of "separator opts"] nw
    by (simp add: B_def)
  have "fed (length ?pw + (B + 13)) g1" using f1 by (rule fed_mono) (use len in simp)
  from capStage_fed [OF this, of opts ?t0] obtain pw1 t1 g2 where
    c: "capStage opts (?pw, ?t0) g1 = Return (pw1, t1) g2" and f2: "fed (B + 13) g2" by blast
  have len1: "length pw1 = length ?pw" using capStage_Return(1) [OF c] .
  have "fed (length pw1 + 13) g2" using f2 by (rule fed_mono) (use len len1 in simp)
  from leetStage_fed [OF this, of opts t1] obtain pw2 t2 g3 where
    l: "leetStage opts (pw1, t1) g2 = Return (pw2, t2) g3" and f3: "fed 13 g3" by blast
  have len2: "length pw2 = length ?pw" using leetStage_Return(1) [OF l] len1 by simp
  have "length pw2 + 4 \<le> 2147483648" using len len2 assms(4) by (simp add: B_def)
  from extrasStage_fed [OF f3 this, of opts t2] obtain pw3 t3 g4 where
    x: "extrasStage opts (pw2, t2) g3 = Return (pw3, t3) g4" by blast
  show ?thesis using w c l x by (simp add: generatePassphrase_def Let_def)
qed

lemma generatePassphrase_account:
  assumes run: "generatePassphrase wl opts g = Return res g'" and ne: "wl \<noteq> []"
  shows "\<exists>ds k vs.
     length ds = numWords opts \<and>
     list_all2 (wordDraw wl (personal opts)) ds (words res) \<and>
     (enableInsertExtras opts \<longrightarrow>
        1 \<le> k \<and> k \<le> maxInsertOf (length (join (words res) (separator opts))) \<and>
        length vs = k \<and> set vs \<subseteq> {[2, 27], [2, 10]}) \<and>
     (\<not> enableInsertExtras opts \<longrightarrow> k = 0 \<and> vs = []) \<and>
     length (password res) = length (join (words res) (separator opts)) + k \<and>
     transforms res
       = \<lparr>capitalisation = enableCap opts,
          lettersCount = (if enableCap opts
                          then length (filter isLetter (join (words res) (separator opts))) else 0),
          leet = enableLeet opts,
          leetChoices = (if enableLeet opts
                         then candidateSizes (join (words res) (separator opts)) else []),
          insertions = (if enableInsertExtras opts then Some \<lparr>count = k, choiceSize = 37\<rparr>
                        else None),
          baseLen = length (join (words res) (separator opts))\<rparr> \<and>
     choices g' = choices g @ concat ds
       @ (if enableCap opts
          then replicate (length (filter isLetter (join (words res) (separator opts)))) 2 else [])
       @ (if enableLeet opts then candidateSizes (join (words res) (separator opts)) else [])
       @ (if enableInsertExtras opts
          then [maxInsertOf (length (join (words res) (separator opts)))] @ concat vs
               @ map (\<lambda>i. length (join (words res) (separator opts)) + i + 1) [0..<k]
          else []) \<and>
     bits res
       = Num (real (numWords opts) * log 2 (real (length wl))
              + choiceBits
                  ((if enableCap opts
                    then replicate (length (filter isLetter (join (words res) (separator opts)))) 2
                    else [])
                   @ (if enableLeet opts
                      then candidateSizes (join (words res) (separator opts)) else []))
              + (if enableInsertExtras opts
                 then real k * log 2 37
                      + log 2 (real ((length (join (words res) (separator opts)) + k) choose k))
                 else 0))"
proof -
  from generatePassphrase_Return [OF run] obtain ws g1 pw1 t1 g2 pw2 t2 g3 where
    w: "chooseWords (numWords opts) wl (personal opts) [] g = Return ws g1" and
    c: "capStage opts (join ws (separator opts),
                     \<lparr>capitalisation = False, lettersCount = 0, leet = False, leetChoices = [],
                      insertions = None, baseLen = length (join ws (separator opts))\<rparr>) g1
        = Return (pw1, t1) g2" and
    l: "leetStage opts (pw1, t1) g2 = Return (pw2, t2) g3" and
    x: "extrasStage opts (pw2, t2) g3 = Return (password res, transforms res) g'" and
    b: "bits res = bitsForPassphraseModel (numWords opts) (length wl) (transforms res)" and
    ws: "words res = ws"
    by blast
  define pw where "pw = join ws (separator opts)"
  define L where "L = length (filter isLetter pw)"
  define ks where "ks = candidateSizes pw"
  let ?t0 = "\<lparr>capitalisation = False, lettersCount = 0, leet = False, leetChoices = [],
              insertions = None, baseLen = length pw\<rparr>"
  note c' = c [folded pw_def]
  note C = capStage_Return [OF c']
  note L = leetStage_Return [OF l]
  from chooseWords_draws [OF w] obtain ds where
    ds: "length ds = numWords opts" "list_all2 (wordDraw wl (personal opts)) ds ws"
        "choices g1 = choices g @ concat ds" by auto
  have len1: "length pw1 = length pw" and len2: "length pw2 = length pw"
    using C(1) L(1) by simp_all
  have sz: "candidateSizes pw1 = ks" using capStage_sizes [OF c'] by (simp add: ks_def)
  have t1: "t1 = ?t0\<lparr>capitalisation := enableCap opts,
                      lettersCount := (if enableCap opts then L else 0)\<rparr>"
    using C(2,3) by (cases "enableCap opts") (simp_all add: L_def)
  have g2: "choices g2 = choices g1 @ (if enableCap opts then replicate L 2 else [])"
    using C(2,3) by (cases "enableCap opts") (simp_all add: L_def)
  have t2: "t2 = t1\<lparr>leet := enableLeet opts, leetChoices := (if enableLeet opts then ks else [])\<rparr>"
    using L(2,3) sz unfolding t1 by (cases "enableLeet opts") simp_all
  have g3: "choices g3 = choices g2 @ (if enableLeet opts then ks else [])"
    using L(2,3) sz by (cases "enableLeet opts") simp_all
  obtain k vs where
    kv: "enableInsertExtras opts \<longrightarrow>
           1 \<le> k \<and> k \<le> maxInsertOf (length pw) \<and> length vs = k \<and> set vs \<subseteq> {[2, 27], [2, 10]}"
        "\<not> enableInsertExtras opts \<longrightarrow> k = 0 \<and> vs = []"
    and plen: "length (password res) = length pw + k"
    and t3: "transforms res
        = t2\<lparr>insertions := (if enableInsertExtras opts then Some \<lparr>count = k, choiceSize = 37\<rparr>
                             else None),
             baseLen := length pw\<rparr>"
    and g4: "choices g' = choices g3
        @ (if enableInsertExtras opts
           then [maxInsertOf (length pw)] @ concat vs @ map (\<lambda>i. length pw + i + 1) [0..<k]
           else [])"
  proof (cases "enableInsertExtras opts")
    case True
    from extrasStage_draws [OF x True] obtain k vs where
      "1 \<le> k" "k \<le> maxInsertOf (length pw2)" "length (password res) = length pw2 + k"
      "transforms res = t2\<lparr>insertions := Some \<lparr>count = k, choiceSize = 37\<rparr>, baseLen := length pw2\<rparr>"
      "length vs = k" "set vs \<subseteq> {[2, 27], [2, 10]}"
      "choices g' = choices g3 @ [maxInsertOf (length pw2)] @ concat vs
                        @ map (\<lambda>i. length pw2 + i + 1) [0..<k]"
      by blast
    then show ?thesis using True that [of k vs] unfolding len2 by simp
  next
    case False
    from extrasStage_Return(2) [OF x False] have
      e: "transforms res = t2" "password res = pw2" "g' = g3" by simp_all
    have "insertions t2 = None" "baseLen t2 = length pw" unfolding t2 t1 by simp_all
    then have "transforms res = t2\<lparr>insertions := None, baseLen := length pw\<rparr>"
      using e(1) by simp
    then show ?thesis using False e(2,3) len2 that [of 0 "[]"] by simp
  qed
  have rec: "transforms res
       = \<lparr>capitalisation = enableCap opts,
          lettersCount = (if enableCap opts then L else 0),
          leet = enableLeet opts,
          leetChoices = (if enableLeet opts then ks else []),
          insertions = (if enableInsertExtras opts then Some \<lparr>count = k, choiceSize = 37\<rparr>
                        else None),
          baseLen = length pw\<rparr>"
    unfolding t3 t2 t1 by simp
  have log: "choices g' = choices g @ concat ds
       @ (if enableCap opts then replicate L 2 else [])
       @ (if enableLeet opts then ks else [])
       @ (if enableInsertExtras opts
          then [maxInsertOf (length pw)] @ concat vs @ map (\<lambda>i. length pw + i + 1) [0..<k]
          else [])"
    unfolding g4 g3 g2 ds(3) by simp
  have W: "0 < length wl" using ne by simp
  have "0 < c" if "c \<in> set ks" for c
    using candidateSizes_ge2 [of c pw] that unfolding ks_def by linarith
  then have pos: "\<forall>c\<in>set (leetChoices (transforms res)). 0 < c"
    unfolding rec by simp
  have cs: "\<forall>ins. insertions (transforms res) = Some ins \<longrightarrow> 0 < choiceSize ins"
    unfolding rec by auto
  have "bits res
      = Num (real (numWords opts) * log 2 (real (length wl))
             + (if enableCap opts then real L else 0)
             + (if enableLeet opts then choiceBits ks else 0)
             + (if enableInsertExtras opts
                then real k * log 2 37 + log 2 (real ((length pw + k) choose k)) else 0))"
    unfolding b bits_value [OF W pos cs] unfolding rec by simp
  moreover have "choiceBits ((if enableCap opts then replicate L 2 else [])
                   @ (if enableLeet opts then ks else []))
      = (if enableCap opts then real L else 0) + (if enableLeet opts then choiceBits ks else 0)"
    by (simp add: choiceBits_simps)
  ultimately have bv: "bits res
      = Num (real (numWords opts) * log 2 (real (length wl))
             + choiceBits ((if enableCap opts then replicate L 2 else [])
                   @ (if enableLeet opts then ks else []))
             + (if enableInsertExtras opts
                then real k * log 2 37 + log 2 (real ((length pw + k) choose k)) else 0))"
    by simp
  show ?thesis
    unfolding ws pw_def [symmetric] L_def [symmetric] ks_def [symmetric]
    using ds(1,2) kv(1) kv(2) plen rec log bv
    by (intro exI [of _ ds] exI [of _ k] exI [of _ vs] conjI)
qed

lemma wordDraw_plain:
  "list_all2 (wordDraw wl hint) ds ws \<Longrightarrow> \<not> 1 < length hint \<Longrightarrow>
     concat ds = replicate (length ds) (length wl) \<and> set ws \<subseteq> set wl"
  by (induction rule: list_all2_induct) (auto simp: wordDraw_def)

lemma wordDraw_hint:
  "list_all2 (wordDraw wl hint) ds ws \<Longrightarrow> 1 < length hint \<Longrightarrow>
     choiceBits (concat ds)
       = real (length ds) * log 2 5
         + real (length (filter (\<lambda>d. d \<noteq> [5]) ds)) * log 2 (real (length wl))"
proof (induction rule: list_all2_induct)
  case Nil
  then show ?case by (simp add: choiceBits_def)
next
  case (Cons d ds w ws)
  have d: "d = [5] \<or> d = [5, length wl]" using Cons.hyps(1) Cons.prems by (auto simp: wordDraw_def)
  have c: "choiceBits (concat (d # ds)) = choiceBits d + choiceBits (concat ds)"
    by (simp add: choiceBits_simps)
  from d show ?case
  proof
    assume "d = [5]"
    then show ?thesis unfolding c using Cons.IH [OF Cons.prems]
      by (simp add: choiceBits_def algebra_simps)
  next
    assume "d = [5, length wl]"
    then show ?thesis unfolding c using Cons.IH [OF Cons.prems]
      by (simp add: choiceBits_def algebra_simps)
  qed
qed

lemma positions_bits:
  "choiceBits (map (\<lambda>i. b + i + 1) [0..<k])
     = log 2 (real ((b + k) choose k)) + log 2 (real (fact k :: nat))"
proof (induction k)
  case 0
  then show ?case by (simp add: choiceBits_def)
next
  case (Suc k)
  have "0 < ((b + k) choose k)" "0 < (fact k :: nat)"
    "0 < ((b + Suc k) choose Suc k)" "0 < (fact (Suc k) :: nat)"
    by (rule zero_less_binomial, simp, rule fact_gt_zero, rule zero_less_binomial, simp,
        rule fact_gt_zero)
  then have pos: "0 < real ((b + k) choose k)" "0 < real (fact k :: nat)"
    "0 < real ((b + Suc k) choose Suc k)" "0 < real (fact (Suc k) :: nat)"
    by (simp_all only: of_nat_0_less_iff)
  define C' where "C' = (Suc (b + k) choose Suc k)"
  define C where "C = ((b + k) choose k)"
  define F where "F = (fact k :: nat)"
  have A: "Suc k * C' = Suc (b + k) * C" unfolding C'_def C_def by (rule Suc_times_binomial)
  have "C' * (Suc k * F) = (Suc k * C') * F" by (simp only: mult_ac)
  also have "\<dots> = (Suc (b + k) * C) * F" by (simp only: A)
  also have "\<dots> = C * F * (b + k + 1)" by (simp add: algebra_simps)
  finally have "C' * (Suc k * F) = C * F * (b + k + 1)" .
  moreover have "(fact (Suc k) :: nat) = Suc k * F" by (simp add: F_def)
  moreover have "b + Suc k = Suc (b + k)" by simp
  ultimately have "((b + Suc k) choose Suc k) * fact (Suc k) = ((b + k) choose k) * fact k * (b + k + 1)"
    unfolding C'_def C_def F_def by (simp only:)
  then have "real (((b + Suc k) choose Suc k) * fact (Suc k))
      = real (((b + k) choose k) * fact k * (b + k + 1))" by (rule arg_cong)
  then have e: "real ((b + Suc k) choose Suc k) * real (fact (Suc k) :: nat)
      = real ((b + k) choose k) * real (fact k :: nat) * real (b + k + 1)"
    by (simp only: of_nat_mult)
  have "choiceBits (map (\<lambda>i. b + i + 1) [0..<Suc k])
      = choiceBits (map (\<lambda>i. b + i + 1) [0..<k]) + log 2 (real (b + k + 1))"
    by (simp add: choiceBits_def)
  also have "\<dots> = log 2 (real ((b + k) choose k)) + log 2 (real (fact k :: nat))
      + log 2 (real (b + k + 1))" using Suc.IH by simp
  also have "\<dots> = log 2 (real ((b + k) choose k) * real (fact k :: nat) * real (b + k + 1))"
    using pos(1,2) by (simp add: log_mult_pos)
  also have "\<dots> = log 2 (real ((b + Suc k) choose Suc k) * real (fact (Suc k) :: nat))"
    by (simp only: e)
  also have "\<dots> = log 2 (real ((b + Suc k) choose Suc k)) + log 2 (real (fact (Suc k) :: nat))"
    using pos(3,4) by (rule log_mult_pos)
  finally show ?case .
qed

text \<open>
  C1 (as amended). A generation returns as soon as the source delivers enough values
  below \<open>2^31\<close>. When it returns, with \<open>pw\<close> the chosen words joined by the separator:

  \<^item> the random choices made are, in this order and no other: for every word a draw
    among 5 when a personal hint of more than one character is given, followed by a draw
    among the \<open>W\<close> words unless the hint was substituted (\<open>wordDraw\<close>); one coin per
    letter of \<open>pw\<close> when capitalization is enabled; one draw among the 2 or 3 candidates
    of every character of \<open>pw\<close> with an entry in the leet table when leet is enabled; and
    when insertion is enabled the draw of the count \<open>k\<close> among \<open>maxInsert\<close>, for each of
    the \<open>k\<close> values a coin and a draw among 27 or 10, and for the \<open>i\<close>-th insertion a
    position among \<open>|pw| + i + 1\<close>;
  \<^item> the record holds exactly that: the number of letters of \<open>pw\<close>, the candidate-set
    sizes of \<open>pw\<close>, the count \<open>k\<close> with the size 37, and \<open>baseLen = |pw|\<close>, the password
    having \<open>|pw| + k\<close> characters;
  \<^item> the bits are \<open>numWords * log2(W)\<close>, plus the sum of \<open>log2(alternatives)\<close> over
    exactly the coins and the leet draws made, plus
    \<open>k * log2(37) + log2(C(baseLen + k, k))\<close> when insertion ran;
  \<^item> so without a hint of more than one character and without insertion the bits are the
    sum of \<open>log2(alternatives)\<close> over exactly the choices made;
  \<^item> with such a hint the word stage makes \<open>numWords\<close> draws among 5 and a draw among
    \<open>W\<close> only for the words that are not the hint, while the bits credit \<open>log2(W)\<close> for
    every word and nothing for the draws among 5; and the positions drawn amount to
    \<open>log2(C(baseLen + k, k)) + log2(k!)\<close>, of which only the first term is credited, as
    the draw of \<open>k\<close> is not.
\<close>

theorem generatePassphrase_bits:
  "wl \<noteq> [] \<longrightarrow>
     (length wl \<le> 2147483648 \<and> (\<forall>w\<in>set wl. length w \<le> m) \<and>
      numWords opts * (max m 12 + length (separator opts)) + 4 \<le> 2147483648 \<and>
      fed (2 * numWords opts + 2 * (numWords opts * (max m 12 + length (separator opts))) + 13) g
        \<longrightarrow> (\<exists>res g'. generatePassphrase wl opts g = Return res g')) \<and>
     (generatePassphrase wl opts g = Return res g' \<longrightarrow>
        (let pw = join (words res) (separator opts);
             n = numWords opts;
             W = length wl;
             caps = (if enableCap opts then replicate (length (filter isLetter pw)) (2 :: nat) else []);
             leets = (if enableLeet opts then candidateSizes pw else [])
         in \<exists>ds k vs.
              length ds = n \<and>
              list_all2 (wordDraw wl (personal opts)) ds (words res) \<and>
              (enableInsertExtras opts \<longrightarrow>
                 1 \<le> k \<and> k \<le> maxInsertOf (length pw) \<and> length vs = k \<and>
                 set vs \<subseteq> {[2, 27], [2, 10]}) \<and>
              (\<not> enableInsertExtras opts \<longrightarrow> k = 0 \<and> vs = []) \<and>
              length (password res) = length pw + k \<and>
              transforms res
                = \<lparr>capitalisation = enableCap opts,
                   lettersCount = (if enableCap opts then length (filter isLetter pw) else 0),
                   leet = enableLeet opts,
                   leetChoices = leets,
                   insertions = (if enableInsertExtras opts
                                 then Some \<lparr>count = k, choiceSize = 37\<rparr> else None),
                   baseLen = length pw\<rparr> \<and>
              choices g' = choices g @ concat ds @ caps @ leets
                @ (if enableInsertExtras opts
                   then [maxInsertOf (length pw)] @ concat vs
                        @ map (\<lambda>i. length pw + i + 1) [0..<k]
                   else []) \<and>
              bits res
                = Num (real n * log 2 (real W) + choiceBits (caps @ leets)
                       + (if enableInsertExtras opts
                          then real k * log 2 37 + log 2 (real ((length pw + k) choose k))
                          else 0)) \<and>
              (\<not> 1 < length (personal opts) \<longrightarrow>
                 concat ds = replicate n W \<and> set (words res) \<subseteq> set wl) \<and>
              (\<not> 1 < length (personal opts) \<and> \<not> enableInsertExtras opts \<longrightarrow>
                 choices g' = choices g @ replicate n W @ caps @ leets \<and>
                 bits res = Num (choiceBits (replicate n W @ caps @ leets))) \<and>
              (1 < length (personal opts) \<longrightarrow>
                 choiceBits (concat ds)
                   = real n * log 2 5
                     + real (length (filter (\<lambda>d. d \<noteq> [5]) ds)) * log 2 (real W)) \<and>
              choiceBits (map (\<lambda>i. length pw + i + 1) [0..<k])
                = log 2 (real ((length pw + k) choose k)) + log 2 (real (fact k :: nat))))"
proof (intro impI conjI)
  assume ne: "wl \<noteq> []"
  assume "length wl \<le> 2147483648 \<and> (\<forall>w\<in>set wl. length w \<le> m) \<and>
      numWords opts * (max m 12 + length (separator opts)) + 4 \<le> 2147483648 \<and>
      fed (2 * numWords opts + 2 * (numWords opts * (max m 12 + length (separator opts))) + 13) g"
  then show "\<exists>res g'. generatePassphrase wl opts g = Return res g'"
    using generatePassphrase_fed [OF ne, of m opts g] by blast
next
  assume ne: "wl \<noteq> []" and run: "generatePassphrase wl opts g = Return res g'"
  define pw where "pw = join (words res) (separator opts)"
  define n where "n = numWords opts"
  define W where "W = length wl"
  define caps where "caps = (if enableCap opts then replicate (length (filter isLetter pw)) (2 :: nat) else [])"
  define leets where "leets = (if enableLeet opts then candidateSizes pw else [])"
  from generatePassphrase_account [OF run ne, folded pw_def n_def W_def, folded caps_def leets_def]
  obtain ds k vs where
    a: "length ds = n"
       "list_all2 (wordDraw wl (personal opts)) ds (words res)"
       "enableInsertExtras opts \<longrightarrow>
          1 \<le> k \<and> k \<le> maxInsertOf (length pw) \<and> length vs = k \<and> set vs \<subseteq> {[2, 27], [2, 10]}"
       "\<not> enableInsertExtras opts \<longrightarrow> k = 0 \<and> vs = []"
       "length (password res) = length pw + k"
       "transforms res
          = \<lparr>capitalisation = enableCap opts,
             lettersCount = (if enableCap opts then length (filter isLetter pw) else 0),
             leet = enableLeet opts,
             leetChoices = leets,
             insertions = (if enableInsertExtras opts
                           then Some \<lparr>count = k, choiceSize = 37\<rparr> else None),
             baseLen = length pw\<rparr>"
       "choices g' = choices g @ concat ds @ caps @ leets
          @ (if enableInsertExtras opts
             then [maxInsertOf (length pw)] @ concat vs @ map (\<lambda>i. length pw + i + 1) [0..<k]
             else [])"
       "bits res
          = Num (real n * log 2 (real W) + choiceBits (caps @ leets)
                 + (if enableInsertExtras opts
                    then real k * log 2 37 + log 2 (real ((length pw + k) choose k))
                    else 0))"
    by blast
  have plain: "\<not> 1 < length (personal opts) \<longrightarrow>
       concat ds = replicate n W \<and> set (words res) \<subseteq> set wl"
    using wordDraw_plain [OF a(2)] a(1) by (simp add: W_def)
  have W0: "0 < W" using ne by (simp add: W_def)
  have exact: "\<not> 1 < length (personal opts) \<and> \<not> enableInsertExtras opts \<longrightarrow>
       choices g' = choices g @ replicate n W @ caps @ leets \<and>
       bits res = Num (choiceBits (replicate n W @ caps @ leets))"
  proof
    assume h: "\<not> 1 < length (personal opts) \<and> \<not> enableInsertExtras opts"
    then have c: "concat ds = replicate n W" using plain by simp
    have "choices g' = choices g @ replicate n W @ caps @ leets" using a(7) h c by simp
    moreover have "bits res = Num (choiceBits (replicate n W @ caps @ leets))"
      using a(8) h by (simp add: choiceBits_simps)
    ultimately show "choices g' = choices g @ replicate n W @ caps @ leets \<and>
       bits res = Num (choiceBits (replicate n W @ caps @ leets))" by simp
  qed
  have hint: "1 < length (personal opts) \<longrightarrow>
       choiceBits (concat ds)
         = real n * log 2 5 + real (length (filter (\<lambda>d. d \<noteq> [5]) ds)) * log 2 (real W)"
    using wordDraw_hint [OF a(2)] a(1) by (simp add: W_def)
  note pos = positions_bits [of "length pw" k]
  have "\<exists>ds k vs.
      length ds = n \<and>
      list_all2 (wordDraw wl (personal opts)) ds (words res) \<and>
      (enableInsertExtras opts \<longrightarrow>
         1 \<le> k \<and> k \<le> maxInsertOf (length pw) \<and> length vs = k \<and>
         set vs \<subseteq> {[2, 27], [2, 10]}) \<and>
      (\<not> enableInsertExtras opts \<longrightarrow> k = 0 \<and> vs = []) \<and>
      length (password res) = length pw + k \<and>
      transforms res
        = \<lparr>capitalisation = enableCap opts,
           lettersCount = (if enableCap opts then length (filter isLetter pw) else 0),
           leet = enableLeet opts,
           leetChoices = leets,
           insertions = (if enableInsertExtras opts
                         then Some \<lparr>count = k, choiceSize = 37\<rparr> else None),
           baseLen = length pw\<rparr> \<and>
      choices g' = choices g @ concat ds @ caps @ leets
        @ (if enableInsertExtras opts
           then [maxInsertOf (length pw)] @ concat vs
                @ map (\<lambda>i. length pw + i + 1) [0..<k]
           else []) \<and>
      bits res
        = Num (real n * log 2 (real W) + choiceBits (caps @ leets)
               + (if enableInsertExtras opts
                  then real k * log 2 37 + log 2 (real ((length pw + k) choose k))
                  else 0)) \<and>
      (\<not> 1 < length (personal opts) \<longrightarrow>
         concat ds = replicate n W \<and> set (words res) \<subseteq> set wl) \<and>
      (\<not> 1 < length (personal opts) \<and> \<not> enableInsertExtras opts \<longrightarrow>
         choices g' = choices g @ replicate n W @ caps @ leets \<and>
         bits res = Num (choiceBits (replicate n W @ caps @ leets))) \<and>
      (1 < length (personal opts) \<longrightarrow>
         choiceBits (concat ds)
           = real n * log 2 5
             + real (length (filter (\<lambda>d. d \<noteq> [5]) ds)) * log 2 (real W)) \<and>
      choiceBits (map (\<lambda>i. length pw + i + 1) [0..<k])
        = log 2 (real ((length pw + k) choose k)) + log 2 (real (fact k :: nat))"
    using a plain exact hint pos
    by (intro exI [of _ ds] exI [of _ k] exI [of _ vs] conjI)
  then show "let pw = join (words res) (separator opts);
             n = numWords opts;
             W = length wl;
             caps = (if enableCap opts then replicate (length (filter isLetter pw)) (2 :: nat) else []);
             leets = (if enableLeet opts then candidateSizes pw else [])
         in \<exists>ds k vs.
              length ds = n \<and>
              list_all2 (wordDraw wl (personal opts)) ds (words res) \<and>
              (enableInsertExtras opts \<longrightarrow>
                 1 \<le> k \<and> k \<le> maxInsertOf (length pw) \<and> length vs = k \<and>
                 set vs \<subseteq> {[2, 27], [2, 10]}) \<and>
              (\<not> enableInsertExtras opts \<longrightarrow> k = 0 \<and> vs = []) \<and>
              length (password res) = length pw + k \<and>
              transforms res
                = \<lparr>capitalisation = enableCap opts,
                   lettersCount = (if enableCap opts then length (filter isLetter pw) else 0),
                   leet = enableLeet opts,
                   leetChoices = leets,
                   insertions = (if enableInsertExtras opts
                                 then Some \<lparr>count = k, choiceSize = 37\<rparr> else None),
                   baseLen = length pw\<rparr> \<and>
              choices g' = choices g @ concat ds @ caps @ leets
                @ (if enableInsertExtras opts
                   then [maxInsertOf (length pw)] @ concat vs
                        @ map (\<lambda>i. length pw + i + 1) [0..<k]
                   else []) \<and>
              bits res
                = Num (real n * log 2 (real W) + choiceBits (caps @ leets)
                       + (if enableInsertExtras opts
                          then real k * log 2 37 + log 2 (real ((length pw + k) choose k))
                          else 0)) \<and>
              (\<not> 1 < length (personal opts) \<longrightarrow>
                 concat ds = replicate n W \<and> set (words res) \<subseteq> set wl) \<and>
              (\<not> 1 < length (personal opts) \<and> \<not> enableInsertExtras opts \<longrightarrow>
                 choices g' = choices g @ replicate n W @ caps @ leets \<and>
                 bits res = Num (choiceBits (replicate n W @ caps @ leets))) \<and>
              (1 < length (personal opts) \<longrightarrow>
                 choiceBits (concat ds)
                   = real n * log 2 5
                     + real (length (filter (\<lambda>d. d \<noteq> [5]) ds)) * log 2 (real W)) \<and>
              choiceBits (map (\<lambda>i. length pw + i + 1) [0..<k])
                = log 2 (real ((length pw + k) choose k)) + log 2 (real (fact k :: nat))"
    unfolding Let_def pw_def n_def W_def caps_def leets_def .
qed

text \<open>
  C1, witness: two words of a list of ten. With capitalization and leet the bits are the
  sum over the twenty choices made; with the hint \<open>my dog\<close> and insertion the first word
  is the hint, three draws are made for the two words and seven for the two insertions.
  A source of 69 small values is enough for two words of at most 12 characters.
\<close>

theorem generatePassphrase_bits_witness:
  "generatePassphrase
      [''apple'', ''anchor'', ''amber'', ''atlas'', ''axiom'', ''beacon'', ''breeze'', ''brisk'',
       ''cobalt'', ''copper'']
      \<lparr>numWords = 2, separator = ''-'', personal = '''', enableCap = True, enableLeet = True,
         enableInsertExtras = False\<rparr>
      \<lparr>raws = [0, 3, 1, 0, 1, 0, 1, 1, 0, 1, 1, 0, 1, 2, 0, 1, 0, 2, 1, 0], choices = []\<rparr>
    = Return
        \<lparr>password = ''4pP|E-4t|4s'',
           bits = Num (choiceBits [10, 10, 2, 2, 2, 2, 2, 2, 2, 2, 2, 2, 3, 3, 2, 3, 2, 3, 3, 3]),
           transforms =
             \<lparr>capitalisation = True, lettersCount = 10, leet = True,
                leetChoices = [3, 3, 2, 3, 2, 3, 3, 3], insertions = None, baseLen = 11\<rparr>,
           words = [''apple'', ''atlas'']\<rparr>
        \<lparr>raws = [],
           choices = [10, 10, 2, 2, 2, 2, 2, 2, 2, 2, 2, 2, 3, 3, 2, 3, 2, 3, 3, 3]\<rparr>
   \<and> candidateSizes (join [''apple'', ''atlas''] ''-'') = [3, 3, 2, 3, 2, 3, 3, 3]
   \<and> generatePassphrase
      [''apple'', ''anchor'', ''amber'', ''atlas'', ''axiom'', ''beacon'', ''breeze'', ''brisk'',
       ''cobalt'', ''copper'']
      \<lparr>numWords = 2, separator = ''-'', personal = ''my dog'', enableCap = False,
         enableLeet = False, enableInsertExtras = True\<rparr>
      \<lparr>raws = [0, 2, 3, 1, 1, 3, 0, 5, 7, 0], choices = []\<rparr>
    = Return
        \<lparr>password = ''5mydog-a$tlas'',
           bits = Num (2 * log 2 10 + (2 * log 2 37 + log 2 78)),
           transforms =
             \<lparr>capitalisation = False, lettersCount = 0, leet = False, leetChoices = [],
                insertions = Some \<lparr>count = 2, choiceSize = 37\<rparr>, baseLen = 11\<rparr>,
           words = [''mydog'', ''atlas'']\<rparr>
        \<lparr>raws = [], choices = [5, 5, 10, 2, 2, 27, 2, 10, 12, 13]\<rparr>
   \<and> fed 69 \<lparr>raws = replicate 69 7, choices = []\<rparr>
   \<and> (\<exists>res g'. generatePassphrase
         [''apple'', ''anchor'', ''amber'', ''atlas'', ''axiom'', ''beacon'', ''breeze'',
          ''brisk'', ''cobalt'', ''copper'']
         \<lparr>numWords = 2, separator = ''-'', personal = ''my dog'', enableCap = False,
            enableLeet = False, enableInsertExtras = True\<rparr>
         \<lparr>raws = replicate 69 7, choices = []\<rparr> = Return res g')"
proof -
  let ?wl = "[''apple'', ''anchor'', ''amber'', ''atlas'', ''axiom'', ''beacon'', ''breeze'',
              ''brisk'', ''cobalt'', ''copper'']"
  let ?oA = "\<lparr>numWords = 2, separator = ''-'', personal = '''', enableCap = True,
              enableLeet = True, enableInsertExtras = False\<rparr>"
  let ?oB = "\<lparr>numWords = 2, separator = ''-'', personal = ''my dog'', enableCap = False,
              enableLeet = False, enableInsertExtras = True\<rparr>"
  let ?gA = "\<lparr>raws = [0, 3, 1, 0, 1, 0, 1, 1, 0, 1, 1, 0, 1, 2, 0, 1, 0, 2, 1, 0 :: u32],
              choices = []\<rparr>"
  let ?gA1 = "\<lparr>raws = [1, 0, 1, 0, 1, 1, 0, 1, 1, 0, 1, 2, 0, 1, 0, 2, 1, 0 :: u32],
               choices = [10, 10]\<rparr>"
  let ?gA2 = "\<lparr>raws = [1, 2, 0, 1, 0, 2, 1, 0 :: u32],
               choices = [10, 10, 2, 2, 2, 2, 2, 2, 2, 2, 2, 2]\<rparr>"
  let ?gA3 = "\<lparr>raws = [] :: u32 list,
               choices = [10, 10, 2, 2, 2, 2, 2, 2, 2, 2, 2, 2, 3, 3, 2, 3, 2, 3, 3, 3]\<rparr>"
  let ?gB = "\<lparr>raws = [0, 2, 3, 1, 1, 3, 0, 5, 7, 0 :: u32], choices = []\<rparr>"
  let ?gB1 = "\<lparr>raws = [1, 1, 3, 0, 5, 7, 0 :: u32], choices = [5, 5, 10]\<rparr>"
  let ?gB' = "\<lparr>raws = [] :: u32 list, choices = [5, 5, 10, 2, 2, 27, 2, 10, 12, 13]\<rparr>"
  let ?gF = "\<lparr>raws = replicate 69 (7 :: u32), choices = []\<rparr>"
  let ?t1 = "\<lparr>capitalisation = True, lettersCount = 10, leet = False, leetChoices = [],
               insertions = None, baseLen = 11\<rparr>"
  let ?t2 = "\<lparr>capitalisation = True, lettersCount = 10, leet = True,
               leetChoices = [3, 3, 2, 3, 2, 3, 3, 3], insertions = None, baseLen = 11\<rparr>"
  let ?tB = "\<lparr>capitalisation = False, lettersCount = 0, leet = False, leetChoices = [],
               insertions = Some \<lparr>count = 2, choiceSize = 37\<rparr>, baseLen = 11\<rparr>"
  let ?rA = "\<lparr>password = ''4pP|E-4t|4s'', bits = bitsForPassphraseModel 2 10 ?t2,
               transforms = ?t2, words = [''apple'', ''atlas'']\<rparr>"
  let ?rB = "\<lparr>password = ''5mydog-a$tlas'', bits = bitsForPassphraseModel 2 10 ?tB,
               transforms = ?tB, words = [''mydog'', ''atlas'']\<rparr>"
  have len: "length ?wl = 10" by simp
  have ne: "?wl \<noteq> []" by simp
  have wA: "chooseWords (numWords ?oA) ?wl (personal ?oA) [] ?gA
      = Return [''apple'', ''atlas''] ?gA1" by code_simp
  have cA: "capStage ?oA
        (join [''apple'', ''atlas''] (separator ?oA),
         \<lparr>capitalisation = False, lettersCount = 0, leet = False, leetChoices = [],
            insertions = None, baseLen = length (join [''apple'', ''atlas''] (separator ?oA))\<rparr>)
        ?gA1
      = Return (''ApPlE-AtLAs'', ?t1) ?gA2"
    by code_simp
  have lA: "leetStage ?oA (''ApPlE-AtLAs'', ?t1) ?gA2 = Return (''4pP|E-4t|4s'', ?t2) ?gA3"
    by code_simp
  have xA: "extrasStage ?oA (''4pP|E-4t|4s'', ?t2) ?gA3 = Return (''4pP|E-4t|4s'', ?t2) ?gA3"
    by (simp add: extrasStage_def)
  have runA: "generatePassphrase ?wl ?oA ?gA = Return ?rA ?gA3"
    unfolding generatePassphrase_def Let_def wA outcome.case cA lA xA len by simp
  have wB: "chooseWords (numWords ?oB) ?wl (personal ?oB) [] ?gB
      = Return [''mydog'', ''atlas''] ?gB1" by code_simp
  have sB: "capStage ?oB st' g' = Return st' g'" "leetStage ?oB st' g' = Return st' g'" for st' g'
    by (simp_all add: capStage_def leetStage_def)
  have xB: "extrasStage ?oB
        (join [''mydog'', ''atlas''] (separator ?oB),
         \<lparr>capitalisation = False, lettersCount = 0, leet = False, leetChoices = [],
            insertions = None, baseLen = length (join [''mydog'', ''atlas''] (separator ?oB))\<rparr>)
        ?gB1
      = Return (''5mydog-a$tlas'', ?tB) ?gB'"
    by code_simp
  have runB: "generatePassphrase ?wl ?oB ?gB = Return ?rB ?gB'"
    unfolding generatePassphrase_def Let_def wB outcome.case sB xB len by simp
  have pwA: "join (words ?rA) (separator ?oA) = ''apple-atlas''" by simp
  have szA: "candidateSizes ''apple-atlas'' = [3, 3, 2, 3, 2, 3, 3, 3]" by code_simp
  have ltA: "length (filter isLetter ''apple-atlas'') = 10" by code_simp
  have hA: "\<not> 1 < length (personal ?oA) \<and> \<not> enableInsertExtras ?oA" by simp
  from generatePassphrase_bits [of ?wl 6 ?oA ?gA ?rA ?gA3, unfolded Let_def pwA] ne runA
  obtain ds k vs where
    "\<not> 1 < length (personal ?oA) \<and> \<not> enableInsertExtras ?oA \<longrightarrow>
       choices ?gA3 = choices ?gA @ replicate (numWords ?oA) (length ?wl)
         @ (if enableCap ?oA then replicate (length (filter isLetter ''apple-atlas'')) (2 :: nat)
            else [])
         @ (if enableLeet ?oA then candidateSizes ''apple-atlas'' else []) \<and>
       bits ?rA = Num (choiceBits (replicate (numWords ?oA) (length ?wl)
         @ (if enableCap ?oA then replicate (length (filter isLetter ''apple-atlas'')) (2 :: nat)
            else [])
         @ (if enableLeet ?oA then candidateSizes ''apple-atlas'' else [])))"
    by blast
  then have "bits ?rA = Num (choiceBits (replicate (numWords ?oA) (length ?wl)
         @ (if enableCap ?oA then replicate (length (filter isLetter ''apple-atlas'')) (2 :: nat)
            else [])
         @ (if enableLeet ?oA then candidateSizes ''apple-atlas'' else [])))"
    using hA by blast
  moreover have "replicate (numWords ?oA) (length ?wl)
         @ (if enableCap ?oA then replicate (length (filter isLetter ''apple-atlas'')) (2 :: nat)
            else [])
         @ (if enableLeet ?oA then candidateSizes ''apple-atlas'' else [])
      = [10, 10, 2, 2, 2, 2, 2, 2, 2, 2, 2, 2, 3, 3, 2, 3, 2, 3, 3, 3]"
    unfolding szA ltA by (simp add: eval_nat_numeral)
  ultimately have bA: "bitsForPassphraseModel 2 10 ?t2
      = Num (choiceBits [10, 10, 2, 2, 2, 2, 2, 2, 2, 2, 2, 2, 3, 3, 2, 3, 2, 3, 3, 3])"
    by simp
  have pwB: "join (words ?rB) (separator ?oB) = ''mydog-atlas''" by simp
  from generatePassphrase_bits [of ?wl 6 ?oB ?gB ?rB ?gB', unfolded Let_def pwB] ne runB
  obtain ds k vs where
    tB: "transforms ?rB
          = \<lparr>capitalisation = enableCap ?oB,
             lettersCount = (if enableCap ?oB then length (filter isLetter ''mydog-atlas'') else 0),
             leet = enableLeet ?oB,
             leetChoices = (if enableLeet ?oB then candidateSizes ''mydog-atlas'' else []),
             insertions = (if enableInsertExtras ?oB
                           then Some \<lparr>count = k, choiceSize = 37\<rparr> else None),
             baseLen = length ''mydog-atlas''\<rparr>"
    and vB: "bits ?rB
          = Num (real (numWords ?oB) * log 2 (real (length ?wl))
                 + choiceBits ((if enableCap ?oB
                                then replicate (length (filter isLetter ''mydog-atlas'')) (2 :: nat)
                                else [])
                               @ (if enableLeet ?oB then candidateSizes ''mydog-atlas'' else []))
                 + (if enableInsertExtras ?oB
                    then real k * log 2 37 + log 2 (real ((length ''mydog-atlas'' + k) choose k))
                    else 0))"
    by blast
  have k: "k = 2" using tB by simp
  have l11: "length ''mydog-atlas'' + 2 = 13" by simp
  have "(13 :: nat) choose 2 = 78" by (simp add: choose_two)
  then have bB: "bitsForPassphraseModel 2 10 ?tB = Num (2 * log 2 10 + (2 * log 2 37 + log 2 78))"
    using vB unfolding k l11 by (simp add: choiceBits_simps)
  have szJ: "candidateSizes (join [''apple'', ''atlas''] ''-'') = [3, 3, 2, 3, 2, 3, 3, 3]"
    using szA by simp
  have f: "fed 69 ?gF" by (simp add: fed_def)
  have "length ?wl \<le> 2147483648 \<and> (\<forall>w\<in>set ?wl. length w \<le> 6) \<and>
      numWords ?oB * (max 6 12 + length (separator ?oB)) + 4 \<le> 2147483648 \<and>
      fed (2 * numWords ?oB + 2 * (numWords ?oB * (max 6 12 + length (separator ?oB))) + 13) ?gF"
    using f by simp
  with generatePassphrase_bits [of ?wl 6 ?oB ?gF] ne
  have ret: "\<exists>res g'. generatePassphrase ?wl ?oB ?gF = Return res g'" by blast
  show ?thesis using runA [unfolded bA] szJ runB [unfolded bB] f ret by (intro conjI)
qed

lemma prod_list_pos: "\<forall>c\<in>set cs. 0 < c \<Longrightarrow> 0 < (prod_list cs :: nat)"
  by (induction cs) simp_all

lemma choiceBits_prod:
  "\<forall>c\<in>set cs. 0 < c \<Longrightarrow> choiceBits cs = log 2 (real (prod_list cs))"
proof (induction cs)
  case Nil
  then show ?case by (simp add: choiceBits_def)
next
  case (Cons c cs)
  then have p: "0 < real c" "0 < real (prod_list cs)" using prod_list_pos [of cs] by simp_all
  have "choiceBits (c # cs) = log 2 (real c) + choiceBits cs" by (simp add: choiceBits_def)
  also have "\<dots> = log 2 (real c) + log 2 (real (prod_list cs))" using Cons by simp
  also have "\<dots> = log 2 (real c * real (prod_list cs))" using p by (simp add: log_mult_pos)
  finally show ?case by simp
qed

lemma choiceBits_less:
  assumes "\<forall>c\<in>set xs. 0 < c" "\<forall>c\<in>set ys. 0 < c" "prod_list xs < prod_list ys"
  shows "choiceBits xs < choiceBits ys"
proof -
  have "0 < prod_list xs" using assms(1) by (rule prod_list_pos)
  then have "log 2 (real (prod_list xs)) < log 2 (real (prod_list ys))"
    using assms(3) by (subst log_less_cancel_iff) simp_all
  then show ?thesis using assms(1,2) by (simp add: choiceBits_prod)
qed

text \<open>
  C1, counterexample to the claim as stated. With a personal hint the two draws
  \<open>secureRandomInt(5)\<close> are made and not counted: the bits are \<open>2 * log2(10)\<close>, the choices
  made have 5, 10, 5 and 10 alternatives. With insertion the draw of the count, the two
  coins, the draws among 27 symbols and 10 digits and the positions among 12 and 13
  slots are made, and the bits credit \<open>2 * log2(37) + log2(C(13, 2))\<close> in their place.
\<close>

theorem generatePassphrase_undercounts_counterexample:
  "generatePassphrase
      [''apple'', ''anchor'', ''amber'', ''atlas'', ''axiom'', ''beacon'', ''breeze'', ''brisk'',
       ''cobalt'', ''copper'']
      \<lparr>numWords = 2, separator = ''-'', personal = ''hint'', enableCap = False,
         enableLeet = False, enableInsertExtras = False\<rparr>
      \<lparr>raws = [1, 0, 2, 3], choices = []\<rparr>
    = Return
        \<lparr>password = ''apple-atlas'', bits = Num (choiceBits [10, 10]),
           transforms =
             \<lparr>capitalisation = False, lettersCount = 0, leet = False, leetChoices = [],
                insertions = None, baseLen = 11\<rparr>,
           words = [''apple'', ''atlas'']\<rparr>
        \<lparr>raws = [], choices = [5, 10, 5, 10]\<rparr>
   \<and> choiceBits [10, 10] < choiceBits [5, 10, 5, 10]
   \<and> generatePassphrase
      [''apple'', ''anchor'', ''amber'', ''atlas'', ''axiom'', ''beacon'', ''breeze'', ''brisk'',
       ''cobalt'', ''copper'']
      \<lparr>numWords = 2, separator = ''-'', personal = '''', enableCap = False,
         enableLeet = False, enableInsertExtras = True\<rparr>
      \<lparr>raws = [0, 3, 1, 1, 3, 0, 5, 7, 0], choices = []\<rparr>
    = Return
        \<lparr>password = ''5apple-a$tlas'', bits = Num (choiceBits [10, 10, 37, 37, 78]),
           transforms =
             \<lparr>capitalisation = False, lettersCount = 0, leet = False, leetChoices = [],
                insertions = Some \<lparr>count = 2, choiceSize = 37\<rparr>, baseLen = 11\<rparr>,
           words = [''apple'', ''atlas'']\<rparr>
        \<lparr>raws = [], choices = [10, 10, 2, 2, 27, 2, 10, 12, 13]\<rparr>
   \<and> choiceBits [10, 10, 37, 37, 78] < choiceBits [10, 10, 2, 2, 27, 2, 10, 12, 13]
   \<and> choiceBits [10, 10] = 2 * log 2 10
   \<and> choiceBits [10, 10, 37, 37, 78] = 2 * log 2 10 + 2 * log 2 37 + log 2 78"
proof -
  let ?wl = "[''apple'', ''anchor'', ''amber'', ''atlas'', ''axiom'', ''beacon'', ''breeze'',
              ''brisk'', ''cobalt'', ''copper'']"
  let ?oA = "\<lparr>numWords = 2, separator = ''-'', personal = ''hint'', enableCap = False,
              enableLeet = False, enableInsertExtras = False\<rparr>"
  let ?oB = "\<lparr>numWords = 2, separator = ''-'', personal = '''', enableCap = False,
              enableLeet = False, enableInsertExtras = True\<rparr>"
  let ?gA = "\<lparr>raws = [1, 0, 2, 3 :: u32], choices = []\<rparr>"
  let ?gA' = "\<lparr>raws = [] :: u32 list, choices = [5, 10, 5, 10]\<rparr>"
  let ?gB = "\<lparr>raws = [0, 3, 1, 1, 3, 0, 5, 7, 0 :: u32], choices = []\<rparr>"
  let ?gB1 = "\<lparr>raws = [1, 1, 3, 0, 5, 7, 0 :: u32], choices = [10, 10]\<rparr>"
  let ?gB' = "\<lparr>raws = [] :: u32 list, choices = [10, 10, 2, 2, 27, 2, 10, 12, 13]\<rparr>"
  let ?t0 = "\<lparr>capitalisation = False, lettersCount = 0, leet = False, leetChoices = [],
               insertions = None, baseLen = 11\<rparr>"
  let ?tB = "\<lparr>capitalisation = False, lettersCount = 0, leet = False, leetChoices = [],
               insertions = Some \<lparr>count = 2, choiceSize = 37\<rparr>, baseLen = 11\<rparr>"
  let ?st = "(join [''apple'', ''atlas''] ''-'',
         \<lparr>capitalisation = False, lettersCount = 0, leet = False, leetChoices = [],
            insertions = None, baseLen = length (join [''apple'', ''atlas''] ''-'')\<rparr>)"
  have len: "length ?wl = 10" by simp
  have st: "?st = (''apple-atlas'', ?t0)" by simp
  have bA: "bitsForPassphraseModel 2 10
        \<lparr>capitalisation = False, lettersCount = 0, leet = False, leetChoices = [],
           insertions = None, baseLen = n\<rparr> = Num (choiceBits [10, 10])" for n
    using bits_value [of 10 "\<lparr>capitalisation = False, lettersCount = 0, leet = False,
        leetChoices = [], insertions = None, baseLen = n\<rparr>" 2] by (simp add: choiceBits_def)
  have "(13 :: nat) choose 2 = 78" by (simp add: choose_two)
  then have bB: "bitsForPassphraseModel 2 10 ?tB = Num (choiceBits [10, 10, 37, 37, 78])"
    using bits_value [of 10 ?tB 2] by (simp add: choiceBits_def)
  have wA: "chooseWords (numWords ?oA) ?wl (personal ?oA) [] ?gA
      = Return [''apple'', ''atlas''] ?gA'" by code_simp
  have sA: "capStage ?oA st' g' = Return st' g'" "leetStage ?oA st' g' = Return st' g'"
    "extrasStage ?oA st' g' = Return st' g'" for st' g'
    by (simp_all add: capStage_def leetStage_def extrasStage_def)
  have runA: "generatePassphrase ?wl ?oA ?gA
      = Return \<lparr>password = ''apple-atlas'', bits = Num (choiceBits [10, 10]),
                 transforms = ?t0, words = [''apple'', ''atlas'']\<rparr> ?gA'"
    unfolding generatePassphrase_def Let_def wA outcome.case sA len
    using bA by simp
  have wB: "chooseWords (numWords ?oB) ?wl (personal ?oB) [] ?gB
      = Return [''apple'', ''atlas''] ?gB1" by code_simp
  have sB: "capStage ?oB st' g' = Return st' g'" "leetStage ?oB st' g' = Return st' g'" for st' g'
    by (simp_all add: capStage_def leetStage_def)
  have xB: "extrasStage ?oB
        (join [''apple'', ''atlas''] (separator ?oB),
         \<lparr>capitalisation = False, lettersCount = 0, leet = False, leetChoices = [],
            insertions = None, baseLen = length (join [''apple'', ''atlas''] (separator ?oB))\<rparr>)
        ?gB1
      = Return (''5apple-a$tlas'', ?tB) ?gB'"
    by code_simp
  have runB: "generatePassphrase ?wl ?oB ?gB
      = Return \<lparr>password = ''5apple-a$tlas'', bits = Num (choiceBits [10, 10, 37, 37, 78]),
                 transforms = ?tB, words = [''apple'', ''atlas'']\<rparr> ?gB'"
    unfolding generatePassphrase_def Let_def wB outcome.case sB xB len
    using bB by simp
  have lA: "choiceBits [10, 10] < choiceBits [5, 10, 5, 10]"
    by (rule choiceBits_less) simp_all
  have lB: "choiceBits [10, 10, 37, 37, 78] < choiceBits [10, 10, 2, 2, 27, 2, 10, 12, 13]"
    by (rule choiceBits_less) simp_all
  have eA: "choiceBits [10, 10] = 2 * log 2 10" by (simp add: choiceBits_def)
  have eB: "choiceBits [10, 10, 37, 37, 78] = 2 * log 2 10 + 2 * log 2 37 + log 2 78"
    by (simp add: choiceBits_def)
  show ?thesis using runA lA runB lB eA eB by blast
qed

text \<open>
  C2. With leet and insertion disabled, a passphrase of \<open>numWords\<close> words from a list of
  \<open>W \<ge> 1\<close> words is returned as soon as the source delivers enough values below \<open>2^31\<close>.
  Without capitalization it is the joined words and reports \<open>numWords * log2(W)\<close> bits;
  with capitalization it reports exactly \<open>lettersCount\<close> bits more, \<open>lettersCount\<close> being
  the recorded number of letters of the joined words. \<open>3 * log2(200)\<close> is between 22.925
  and 22.935.
\<close>

theorem generatePassphrase_plain_bits:
  "(wl \<noteq> [] \<and> \<not> enableLeet opts \<and> \<not> enableInsertExtras opts \<longrightarrow>
      (length wl \<le> 2147483648 \<and> (\<forall>w\<in>set wl. length w \<le> m) \<and>
       numWords opts * (max m 12 + length (separator opts)) + 4 \<le> 2147483648 \<and>
       fed (2 * numWords opts + 2 * (numWords opts * (max m 12 + length (separator opts))) + 13) g
         \<longrightarrow> (\<exists>res g'. generatePassphrase wl opts g = Return res g')) \<and>
      (generatePassphrase wl opts g = Return res g' \<longrightarrow>
         length (words res) = numWords opts \<and>
         length (password res) = length (join (words res) (separator opts)) \<and>
         leetChoices (transforms res) = [] \<and> insertions (transforms res) = None \<and>
         (\<not> enableCap opts \<longrightarrow>
            password res = join (words res) (separator opts) \<and>
            bits res = Num (real (numWords opts) * log 2 (real (length wl)))) \<and>
         (enableCap opts \<longrightarrow>
            lettersCount (transforms res)
              = length (filter isLetter (join (words res) (separator opts))) \<and>
            bits res = Num (real (numWords opts) * log 2 (real (length wl))
                            + real (lettersCount (transforms res)))))) \<and>
   22.925 < 3 * log 2 200 \<and> 3 * log 2 200 < 22.935"
proof (intro conjI impI)
  assume h: "wl \<noteq> [] \<and> \<not> enableLeet opts \<and> \<not> enableInsertExtras opts"
  assume "length wl \<le> 2147483648 \<and> (\<forall>w\<in>set wl. length w \<le> m) \<and>
       numWords opts * (max m 12 + length (separator opts)) + 4 \<le> 2147483648 \<and>
       fed (2 * numWords opts + 2 * (numWords opts * (max m 12 + length (separator opts))) + 13) g"
  then show "\<exists>res g'. generatePassphrase wl opts g = Return res g'"
    using generatePassphrase_fed [of wl m opts g] h by blast
next
  assume h: "wl \<noteq> [] \<and> \<not> enableLeet opts \<and> \<not> enableInsertExtras opts"
    and run: "generatePassphrase wl opts g = Return res g'"
  from h have ne: "wl \<noteq> []" and nl: "\<not> enableLeet opts" and nx: "\<not> enableInsertExtras opts"
    by simp_all
  define pw where "pw = join (words res) (separator opts)"
  from generatePassphrase_account [OF run ne, folded pw_def] obtain ds k vs where
    a: "length ds = numWords opts"
       "list_all2 (wordDraw wl (personal opts)) ds (words res)"
       "\<not> enableInsertExtras opts \<longrightarrow> k = 0 \<and> vs = []"
       "length (password res) = length pw + k"
       "transforms res
          = \<lparr>capitalisation = enableCap opts,
             lettersCount = (if enableCap opts then length (filter isLetter pw) else 0),
             leet = enableLeet opts,
             leetChoices = (if enableLeet opts then candidateSizes pw else []),
             insertions = (if enableInsertExtras opts
                           then Some \<lparr>count = k, choiceSize = 37\<rparr> else None),
             baseLen = length pw\<rparr>"
       "bits res
          = Num (real (numWords opts) * log 2 (real (length wl))
                 + choiceBits ((if enableCap opts then replicate (length (filter isLetter pw)) 2
                                else [])
                               @ (if enableLeet opts then candidateSizes pw else []))
                 + (if enableInsertExtras opts
                    then real k * log 2 37 + log 2 (real ((length pw + k) choose k))
                    else 0))"
    by blast
  show "length (words res) = numWords opts"
    using list_all2_lengthD [OF a(2)] a(1) by simp
  show "length (password res) = length (join (words res) (separator opts))"
    using a(3,4) nx by (simp add: pw_def)
  show "leetChoices (transforms res) = []" unfolding a(5) using nl by simp
  show "insertions (transforms res) = None" unfolding a(5) using nx by simp
  show "lettersCount (transforms res)
      = length (filter isLetter (join (words res) (separator opts)))" if "enableCap opts"
    unfolding a(5) using that by (simp add: pw_def)
  show "bits res = Num (real (numWords opts) * log 2 (real (length wl))
                        + real (lettersCount (transforms res)))" if "enableCap opts"
    unfolding a(6) a(5) using that nl nx by (simp add: choiceBits_simps)
  show "bits res = Num (real (numWords opts) * log 2 (real (length wl)))" if "\<not> enableCap opts"
    unfolding a(6) using that nl nx by (simp add: choiceBits_simps)
  show "password res = join (words res) (separator opts)" if nc: "\<not> enableCap opts"
  proof -
    from generatePassphrase_Return [OF run] obtain ws g1 pw1 t1 g2 pw2 t2 g3 where
      c: "capStage opts (join ws (separator opts),
                     \<lparr>capitalisation = False, lettersCount = 0, leet = False, leetChoices = [],
                      insertions = None, baseLen = length (join ws (separator opts))\<rparr>) g1
        = Return (pw1, t1) g2" and
      l: "leetStage opts (pw1, t1) g2 = Return (pw2, t2) g3" and
      x: "extrasStage opts (pw2, t2) g3 = Return (password res, transforms res) g'" and
      ws: "words res = ws"
      by blast
    have "pw1 = join ws (separator opts)" using capStage_Return(3) [OF c nc] by simp
    moreover have "pw2 = pw1" using leetStage_Return(3) [OF l nl] by simp
    moreover have "password res = pw2" using extrasStage_Return(2) [OF x nx] by simp
    ultimately show ?thesis using ws by simp
  qed
next
  show "22.925 < 3 * log 2 200" "3 * log 2 200 < 22.935" by (rule log2_200_bounds)+
qed

lemma fallback_short: "\<forall>w\<in>set embedded_fallback. length w \<le> 8"
proof -
  have "list_all (\<lambda>w. length w \<le> 8) embedded_fallback" by code_simp
  then show ?thesis by (simp add: list_all_iff)
qed

text \<open>
  C2, witness: three words of a list of 200 (the embedded list and its first 14 words
  again), without transforms and with capitalization of the 14 letters; the raw values
  200 and 212 give the words 0 and 12.
\<close>

theorem generatePassphrase_plain_bits_witness:
  "generatePassphrase (embedded_fallback @ take 14 embedded_fallback)
      \<lparr>numWords = 3, separator = ''-'', personal = '''', enableCap = False, enableLeet = False,
         enableInsertExtras = False\<rparr>
      \<lparr>raws = [200, 11, 212], choices = []\<rparr>
    = Return
        \<lparr>password = ''apple-crest-dawn'', bits = Num (3 * log 2 200),
           transforms =
             \<lparr>capitalisation = False, lettersCount = 0, leet = False, leetChoices = [],
                insertions = None, baseLen = 16\<rparr>,
           words = [''apple'', ''crest'', ''dawn'']\<rparr>
        \<lparr>raws = [], choices = [200, 200, 200]\<rparr>
   \<and> generatePassphrase (embedded_fallback @ take 14 embedded_fallback)
      \<lparr>numWords = 3, separator = ''-'', personal = '''', enableCap = True, enableLeet = False,
         enableInsertExtras = False\<rparr>
      \<lparr>raws = [200, 11, 212, 1, 0, 1, 1, 0, 0, 1, 0, 1, 1, 1, 0, 0, 1], choices = []\<rparr>
    = Return
        \<lparr>password = ''ApPLe-cReST-DawN'', bits = Num (3 * log 2 200 + 14),
           transforms =
             \<lparr>capitalisation = True, lettersCount = 14, leet = False, leetChoices = [],
                insertions = None, baseLen = 16\<rparr>,
           words = [''apple'', ''crest'', ''dawn'']\<rparr>
        \<lparr>raws = [], choices = [200, 200, 200, 2, 2, 2, 2, 2, 2, 2, 2, 2, 2, 2, 2, 2, 2]\<rparr>
   \<and> length (embedded_fallback @ take 14 embedded_fallback) = 200
   \<and> length (filter isLetter (join [''apple'', ''crest'', ''dawn''] ''-'')) = 14
   \<and> fed 97 \<lparr>raws = replicate 97 7, choices = []\<rparr>
   \<and> (\<exists>res g'. generatePassphrase (embedded_fallback @ take 14 embedded_fallback)
         \<lparr>numWords = 3, separator = ''-'', personal = '''', enableCap = True, enableLeet = False,
            enableInsertExtras = False\<rparr>
         \<lparr>raws = replicate 97 7, choices = []\<rparr> = Return res g')"
proof -
  let ?wl = "embedded_fallback @ take 14 embedded_fallback"
  let ?o0 = "\<lparr>numWords = 3, separator = ''-'', personal = '''', enableCap = False,
              enableLeet = False, enableInsertExtras = False\<rparr>"
  let ?oC = "\<lparr>numWords = 3, separator = ''-'', personal = '''', enableCap = True,
              enableLeet = False, enableInsertExtras = False\<rparr>"
  let ?g0 = "\<lparr>raws = [200, 11, 212 :: u32], choices = []\<rparr>"
  let ?g0' = "\<lparr>raws = [] :: u32 list, choices = [200, 200, 200]\<rparr>"
  let ?gC = "\<lparr>raws = [200, 11, 212, 1, 0, 1, 1, 0, 0, 1, 0, 1, 1, 1, 0, 0, 1 :: u32],
              choices = []\<rparr>"
  let ?gC1 = "\<lparr>raws = [1, 0, 1, 1, 0, 0, 1, 0, 1, 1, 1, 0, 0, 1 :: u32],
               choices = [200, 200, 200]\<rparr>"
  let ?gC' = "\<lparr>raws = [] :: u32 list,
               choices = [200, 200, 200, 2, 2, 2, 2, 2, 2, 2, 2, 2, 2, 2, 2, 2, 2]\<rparr>"
  let ?gF = "\<lparr>raws = replicate 97 (7 :: u32), choices = []\<rparr>"
  let ?ws = "[''apple'', ''crest'', ''dawn'']"
  let ?t0 = "\<lparr>capitalisation = False, lettersCount = 0, leet = False, leetChoices = [],
              insertions = None, baseLen = 16\<rparr>"
  let ?tC = "\<lparr>capitalisation = True, lettersCount = 14, leet = False, leetChoices = [],
              insertions = None, baseLen = 16\<rparr>"
  let ?r0 = "\<lparr>password = ''apple-crest-dawn'', bits = bitsForPassphraseModel 3 200 ?t0,
              transforms = ?t0, words = ?ws\<rparr>"
  let ?rC = "\<lparr>password = ''ApPLe-cReST-DawN'', bits = bitsForPassphraseModel 3 200 ?tC,
              transforms = ?tC, words = ?ws\<rparr>"
  have len: "length ?wl = 200" by (simp add: fallback_length)
  have ne: "?wl \<noteq> []" using len by auto
  have short: "\<forall>w\<in>set ?wl. length w \<le> 8"
    using fallback_short set_take_subset [of 14 embedded_fallback] by auto
  have w0: "chooseWords (numWords ?o0) ?wl (personal ?o0) [] ?g0 = Return ?ws ?g0'" by code_simp
  have s0: "capStage ?o0 st' g' = Return st' g'" "leetStage ?o0 st' g' = Return st' g'"
    "extrasStage ?o0 st' g' = Return st' g'" for st' g'
    by (simp_all add: capStage_def leetStage_def extrasStage_def)
  have jl: "length (join ?ws (separator ?o0)) = 16" by simp
  have jw: "join ?ws (separator ?o0) = ''apple-crest-dawn''" by simp
  have run0: "generatePassphrase ?wl ?o0 ?g0 = Return ?r0 ?g0'"
    unfolding generatePassphrase_def Let_def w0 outcome.case s0 len jl unfolding jw by simp
  have wC: "chooseWords (numWords ?oC) ?wl (personal ?oC) [] ?gC = Return ?ws ?gC1" by code_simp
  have cC: "capStage ?oC
        (join ?ws (separator ?oC),
         \<lparr>capitalisation = False, lettersCount = 0, leet = False, leetChoices = [],
            insertions = None, baseLen = length (join ?ws (separator ?oC))\<rparr>)
        ?gC1
      = Return (''ApPLe-cReST-DawN'', ?tC) ?gC'"
    by code_simp
  have sC: "leetStage ?oC st' g' = Return st' g'" "extrasStage ?oC st' g' = Return st' g'"
    for st' g'
    by (simp_all add: leetStage_def extrasStage_def)
  have runC: "generatePassphrase ?wl ?oC ?gC = Return ?rC ?gC'"
    unfolding generatePassphrase_def Let_def wC outcome.case cC sC len by simp
  have h0: "?wl \<noteq> [] \<and> \<not> enableLeet ?o0 \<and> \<not> enableInsertExtras ?o0" using ne by simp
  have hC: "?wl \<noteq> [] \<and> \<not> enableLeet ?oC \<and> \<not> enableInsertExtras ?oC" using ne by simp
  from generatePassphrase_plain_bits [of ?wl ?o0 8 ?g0 ?r0 ?g0'] h0 run0
  have "bits ?r0 = Num (real (numWords ?o0) * log 2 (real (length ?wl)))" by simp
  then have b0: "bitsForPassphraseModel 3 200 ?t0 = Num (3 * log 2 200)" unfolding len by simp
  from generatePassphrase_plain_bits [of ?wl ?oC 8 ?gC ?rC ?gC'] hC runC
  have "lettersCount (transforms ?rC)
          = length (filter isLetter (join (words ?rC) (separator ?oC)))
      \<and> bits ?rC = Num (real (numWords ?oC) * log 2 (real (length ?wl))
                        + real (lettersCount (transforms ?rC)))" by simp
  then have bC: "bitsForPassphraseModel 3 200 ?tC = Num (3 * log 2 200 + 14)"
    and lc: "length (filter isLetter (join ?ws ''-'')) = 14"
    unfolding len by simp_all
  have f: "fed 97 ?gF" by (simp add: fed_def)
  have "length ?wl \<le> 2147483648 \<and> (\<forall>w\<in>set ?wl. length w \<le> 8) \<and>
       numWords ?oC * (max 8 12 + length (separator ?oC)) + 4 \<le> 2147483648 \<and>
       fed (2 * numWords ?oC + 2 * (numWords ?oC * (max 8 12 + length (separator ?oC))) + 13) ?gF"
    using short f unfolding len by simp
  with generatePassphrase_plain_bits [of ?wl ?oC 8 ?gF] hC
  have ret: "\<exists>res g'. generatePassphrase ?wl ?oC ?gF = Return res g'" by blast
  show ?thesis using run0 [unfolded b0] runC [unfolded bC] len lc f ret by (intro conjI)
qed

end
